theory Spec2Isabelle
  imports Main "HOL-Library.Sublist"
begin

section \<open>Rule 116: SPLIT requires MODE\<close>

text \<open>
  A shallow embedding of \<^verbatim>\<open>src/app/app.py\<close>. A Python \<^verbatim>\<open>str\<close> is modelled as a
  \<^typ>\<open>string\<close>, one \<^typ>\<open>char\<close> per code point, so the texts covered are those whose
  code points lie in the range 0..255. Offsets are counted in code points, as Python
  counts them.
\<close>

subsection \<open>Character classes of the regular expression engine\<close>

text \<open>
  The patterns are \<^verbatim>\<open>str\<close> patterns, hence matched with the Unicode tables: \<^verbatim>\<open>\w\<close> is an
  alphanumeric code point or the underscore, \<^verbatim>\<open>\s\<close> is Unicode white space, and a cased
  literal under \<^verbatim>\<open>(?i)\<close> matches a character with the same simple lower-case mapping.
  The three tables below are those tables on the code points 0..255.
\<close>

definition is_word :: "char \<Rightarrow> bool" where
  "is_word c =
     (let n = (of_char c :: nat)
      in (48 \<le> n \<and> n \<le> 57) \<or> (65 \<le> n \<and> n \<le> 90) \<or> n = 95 \<or> (97 \<le> n \<and> n \<le> 122)
         \<or> n = 170 \<or> n = 178 \<or> n = 179 \<or> n = 181 \<or> n = 185 \<or> n = 186
         \<or> (188 \<le> n \<and> n \<le> 190) \<or> (192 \<le> n \<and> n \<le> 214) \<or> (216 \<le> n \<and> n \<le> 246)
         \<or> 248 \<le> n)"

definition is_space :: "char \<Rightarrow> bool" where
  "is_space c =
     (let n = (of_char c :: nat)
      in (9 \<le> n \<and> n \<le> 13) \<or> (28 \<le> n \<and> n \<le> 32) \<or> n = 133 \<or> n = 160)"

definition lower :: "char \<Rightarrow> char" where
  "lower c =
     (let n = (of_char c :: nat)
      in if (65 \<le> n \<and> n \<le> 90) \<or> (192 \<le> n \<and> n \<le> 214) \<or> (216 \<le> n \<and> n \<le> 222)
         then char_of (n + 32) else c)"

subsection \<open>A backtracking matcher for the constructs the two patterns use\<close>

datatype regex =
    Eps
  | Lit char
  | Cls "char \<Rightarrow> bool"
  | Many "char \<Rightarrow> bool"
  | WordB
  | Seq regex regex
  | Alt regex regex

text \<open>
  \<open>Lit c\<close> is a literal compiled under \<^verbatim>\<open>(?i)\<close>, \<open>Cls p\<close> one character of a class,
  \<open>Many p\<close> the greedy repetition \<^verbatim>\<open>p*\<close> of a class, \<open>WordB\<close> the assertion \<^verbatim>\<open>\b\<close>.
\<close>

definition word_boundary :: "string \<Rightarrow> nat \<Rightarrow> bool" where
  "word_boundary t i =
     ((0 < i \<and> i \<le> length t \<and> is_word (t ! (i - 1))) \<noteq> (i < length t \<and> is_word (t ! i)))"

text \<open>
  \<open>ends r t i\<close> lists the offsets at which a match of \<open>r\<close> that starts at offset \<open>i\<close>
  of the text \<open>t\<close> can end, in the order in which the backtracking engine tries them:
  the greedy repetition tries the longest run first, an alternation its left branch first.
\<close>

fun ends :: "regex \<Rightarrow> string \<Rightarrow> nat \<Rightarrow> nat list" where
  "ends Eps t i = [i]"
| "ends (Lit c) t i = (if i < length t \<and> lower (t ! i) = lower c then [Suc i] else [])"
| "ends (Cls p) t i = (if i < length t \<and> p (t ! i) then [Suc i] else [])"
| "ends (Many p) t i = rev [i ..< Suc (i + length (takeWhile p (drop i t)))]"
| "ends WordB t i = (if word_boundary t i then [i] else [])"
| "ends (Seq a b) t i = concat (map (ends b t) (ends a t i))"
| "ends (Alt a b) t i = ends a t i @ ends b t i"

text \<open>
  \<^verbatim>\<open>Pattern.search(text, pos)\<close>: the first offset from \<open>pos\<close> on at which the pattern
  matches, with the end the engine finds first. \<open>adv\<close> is the scanner's
  \<^verbatim>\<open>must_advance\<close> flag: at the first offset tried, an empty match is refused.
\<close>

function search :: "regex \<Rightarrow> string \<Rightarrow> nat \<Rightarrow> bool \<Rightarrow> (nat \<times> nat) option" where
  "search r t pos adv =
     (if length t < pos then None
      else case filter (\<lambda>e. \<not> (adv \<and> e = pos)) (ends r t pos) of
             e # _ \<Rightarrow> Some (pos, e)
           | [] \<Rightarrow> search r t (Suc pos) False)"
  by pat_completeness auto
termination
  by (relation "measure (\<lambda>(r, t, pos, adv). Suc (length t) - pos)") auto

declare search.simps [simp del]

lemma ends_ge: "e \<in> set (ends r t i) \<Longrightarrow> i \<le> e"
proof (induction r arbitrary: i e)
  case (Seq a b)
  then obtain m where "m \<in> set (ends a t i)" "e \<in> set (ends b t m)" by auto
  with Seq.IH show ?case by (meson le_trans)
qed (auto split: if_splits)

lemma search_Some:
  "search r t pos adv = Some (s, e) \<Longrightarrow>
     pos \<le> s \<and> s \<le> length t \<and> s \<le> e \<and> (s = pos \<and> adv \<longrightarrow> e \<noteq> s)"
proof (induction r t pos adv rule: search.induct)
  case (1 r t pos adv)
  show ?case
  proof (cases "filter (\<lambda>e. \<not> (adv \<and> e = pos)) (ends r t pos)")
    case Nil
    with "1.prems" have le: "\<not> length t < pos" and "search r t (Suc pos) False = Some (s, e)"
      by (auto simp: search.simps [of r t pos adv] split: if_splits)
    with "1.IH" [OF le Nil] show ?thesis by auto
  next
    case (Cons x xs)
    with "1.prems" have le: "\<not> length t < pos" and eq: "s = pos" "e = x"
      by (auto simp: search.simps [of r t pos adv] split: if_splits)
    have "x \<in> set (x # xs)" by simp
    then have "x \<in> set (filter (\<lambda>e. \<not> (adv \<and> e = pos)) (ends r t pos))"
      unfolding Cons .
    then have "x \<in> set (ends r t pos)" "\<not> (adv \<and> x = pos)" by auto
    with ends_ge [of x r t pos] le eq show ?thesis by auto
  qed
qed

text \<open>
  \<^verbatim>\<open>Pattern.finditer(text)\<close>: the matches from left to right; after a match the scan
  resumes at its end, and an empty match sets \<^verbatim>\<open>must_advance\<close> for the next search.
\<close>

function finditer_from :: "regex \<Rightarrow> string \<Rightarrow> nat \<Rightarrow> bool \<Rightarrow> (nat \<times> nat) list" where
  "finditer_from r t pos adv =
     (case search r t pos adv of
        None \<Rightarrow> []
      | Some (s, e) \<Rightarrow> (s, e) # finditer_from r t e (e = s))"
  by pat_completeness auto
termination
proof (relation "measure (\<lambda>(r, t, pos, adv). 2 * (Suc (length t) - pos) + (if adv then 0 else 1))",
    goal_cases)
  case 1
  show ?case by simp
next
  case (2 r t pos adv x2 s e)
  then have "search r t pos adv = Some (s, e)" by simp
  from search_Some [OF this] show ?case by auto
qed

declare finditer_from.simps [simp del]

definition finditer :: "regex \<Rightarrow> string \<Rightarrow> (nat \<times> nat) list" where
  "finditer r t = finditer_from r t 0 False"

subsection \<open>The two patterns\<close>

definition lits :: "string \<Rightarrow> regex" where
  "lits s = foldr (\<lambda>c r. Seq (Lit c) r) s Eps"

definition Plus :: "(char \<Rightarrow> bool) \<Rightarrow> regex" where
  "Plus p = Seq (Cls p) (Many p)"

text \<open>\<^verbatim>\<open>STMT_RE = re.compile(r"(?is)\bSPLIT\b[^.]*\.", re.DOTALL)\<close>\<close>

definition STMT_RE :: regex where
  "STMT_RE =
     Seq WordB (Seq (lits ''SPLIT'') (Seq WordB
       (Seq (Many (\<lambda>c. c \<noteq> CHR ''.'')) (Cls (\<lambda>c. c = CHR ''.'')))))"

text \<open>\<^verbatim>\<open>MODE_RE = re.compile(r"(?i)\bIN\s+(CHARACTER|BYTE)\s+MODE\b")\<close>\<close>

definition MODE_RE :: regex where
  "MODE_RE =
     Seq WordB (Seq (lits ''IN'') (Seq (Plus is_space)
       (Seq (Alt (lits ''CHARACTER'') (lits ''BYTE'')) (Seq (Plus is_space)
         (Seq (lits ''MODE'') WordB)))))"

subsection \<open>String operations\<close>

text \<open>Python's \<^verbatim>\<open>xs[a:b]\<close> for integers \<open>a\<close> and \<open>b\<close>; a negative index counts from the end.\<close>

definition adjust_index :: "nat \<Rightarrow> int \<Rightarrow> nat" where
  "adjust_index n i = (if i < 0 then nat (max 0 (int n + i)) else min n (nat i))"

definition slice :: "'a list \<Rightarrow> int \<Rightarrow> int \<Rightarrow> 'a list" where
  "slice xs a b =
     (let s = adjust_index (length xs) a; e = adjust_index (length xs) b
      in take (e - s) (drop s xs))"

text \<open>\<^verbatim>\<open>text.count(c, a, b)\<close> for a needle \<open>c\<close> of one character.\<close>

definition count_char :: "string \<Rightarrow> char \<Rightarrow> int \<Rightarrow> int \<Rightarrow> int" where
  "count_char t c a b = int (length (filter (\<lambda>x. x = c) (slice t a b)))"

text \<open>
  \<^verbatim>\<open>s.replace(old, new)\<close>: the occurrences of \<open>old\<close> are replaced from left to right
  without overlap; an empty \<open>old\<close> matches before every character and at the end.
\<close>

function replace :: "string \<Rightarrow> string \<Rightarrow> string \<Rightarrow> string" where
  "replace old new s =
     (if old = [] then new @ concat (map (\<lambda>c. c # new) s)
      else if s = [] then []
      else if take (length old) s = old then new @ replace old new (drop (length old) s)
      else hd s # replace old new (tl s))"
  by pat_completeness auto
termination
  by (relation "measure (\<lambda>(old, new, s). length s)") auto

declare replace.simps [simp del]

subsection \<open>Models\<close>

text \<open>
  \<^verbatim>\<open>Unit\<close> and the finding dictionaries share six identifying keys; they are the common
  root of the records below. \<open>Unit_result\<close> is the dictionary \<^verbatim>\<open>scan_unit\<close> returns:
  the unit's fields and the key \<^verbatim>\<open>rule116_findings\<close>.
\<close>

record Ident =
  pgm_name :: string
  inc_name :: string
  type :: string
  name :: "string option"
  start_line :: "int option"
  end_line :: "int option"

record Unit = Ident +
  code :: "string option"

record Finding = Ident +
  issue_type :: string
  severity :: string
  line :: int
  message :: string
  suggestion :: string
  snippet :: string

record Unit_result = Unit +
  rule116_findings :: "Finding list"

subsection \<open>Helpers\<close>

definition line_of_offset :: "string \<Rightarrow> int \<Rightarrow> int" where
  "line_of_offset text off = count_char text CHR 0x0A 0 off + 1"

definition snippet_at :: "string \<Rightarrow> int \<Rightarrow> int \<Rightarrow> string" where
  "snippet_at text start end' =
     (let s = max 0 (start - 60);
          e = min (int (length text)) (end' + 60)
      in replace [CHR 0x0A] [CHR 0x5C, CHR ''n''] (slice text s e))"

subsection \<open>Detection\<close>

definition message_text :: string where
  "message_text =
     ''SPLIT without MODE. Specify IN CHARACTER MODE (text) or IN BYTE MODE (binary).''"

definition suggestion_text :: string where
  "suggestion_text =
     ''SPLIT <text> AT <sep> INTO <f1> <f2> ... IN CHARACTER MODE.'' @ [CHR 0x0A] @
     ''* or *'' @ [CHR 0x0A] @
     ''SPLIT <xbin> AT <xsep> INTO <x1> <x2> ... IN BYTE MODE. Specify IN CHARACTER MODE (text) or IN BYTE MODE (binary).''"

text \<open>\<^verbatim>\<open>MODE_RE.search(stmt) is not None\<close>\<close>

definition has_mode :: "string \<Rightarrow> bool" where
  "has_mode stmt = (search MODE_RE stmt 0 False \<noteq> None)"

text \<open>The dictionary appended for a match \<open>(start, end)\<close> of \<open>STMT_RE\<close> in \<open>src\<close>.\<close>

definition make_finding :: "'a Unit_scheme \<Rightarrow> string \<Rightarrow> nat \<times> nat \<Rightarrow> Finding" where
  "make_finding u src m =
     (case m of (start, end') \<Rightarrow>
        \<lparr> pgm_name = pgm_name u, inc_name = inc_name u, type = type u, name = name u,
          start_line = start_line u, end_line = end_line u,
          issue_type = ''SplitWithoutMode'', severity = ''warning'',
          line = line_of_offset src (int start),
          message = message_text, suggestion = suggestion_text,
          snippet = snippet_at src (int start) (int end') \<rparr>)"

text \<open>One turn of the loop of \<^verbatim>\<open>scan_unit\<close>, on the list \<open>findings\<close> built so far.\<close>

definition scan_step :: "'a Unit_scheme \<Rightarrow> string \<Rightarrow> Finding list \<Rightarrow> nat \<times> nat \<Rightarrow> Finding list" where
  "scan_step u src findings m =
     (case m of (start, end') \<Rightarrow>
        let stmt = slice src (int start) (int end')
        in if \<not> has_mode stmt then findings @ [make_finding u src m] else findings)"

definition scan_findings :: "'a Unit_scheme \<Rightarrow> Finding list" where
  "scan_findings u =
     (let src = (case code u of None \<Rightarrow> [] | Some c \<Rightarrow> c)
      in foldl (scan_step u src) [] (finditer STMT_RE src))"

definition scan_unit :: "Unit \<Rightarrow> Unit_result" where
  "scan_unit u = Unit.extend u \<lparr> rule116_findings = scan_findings u \<rparr>"

subsection \<open>Endpoint\<close>

definition scan_rule :: "Unit list \<Rightarrow> Unit_result list" where
  "scan_rule units =
     foldl (\<lambda>results u. let res = scan_unit u
                        in if rule116_findings res \<noteq> [] then results @ [res] else results)
       [] units"

subsection \<open>The objects read and written by the scan\<close>

text \<open>
  \<^verbatim>\<open>scan_unit\<close> on a store of objects, to state what it reads and writes: the unit is an
  object of the store, \<^verbatim>\<open>unit.model_dump()\<close> allocates a new dictionary with the fields of
  the unit, and the assignment to the key \<^verbatim>\<open>rule116_findings\<close> updates that
  dictionary. The list \<^verbatim>\<open>findings\<close> is local to the call.
\<close>

datatype object = Model Unit | Dict Unit "Finding list option"

record heap =
  objects :: "nat \<rightharpoonup> object"
  next_ref :: nat

definition model_dump :: "Unit \<Rightarrow> heap \<Rightarrow> nat \<times> heap" where
  "model_dump u h =
     (next_ref h, h\<lparr> objects := (objects h)(next_ref h \<mapsto> Dict u None), next_ref := Suc (next_ref h) \<rparr>)"

definition set_findings :: "nat \<Rightarrow> Finding list \<Rightarrow> heap \<Rightarrow> heap" where
  "set_findings d fs h =
     (case objects h d of
        Some (Dict u _) \<Rightarrow> h\<lparr> objects := (objects h)(d \<mapsto> Dict u (Some fs)) \<rparr>
      | _ \<Rightarrow> h)"

definition scan_unit_st :: "nat \<Rightarrow> heap \<Rightarrow> (nat \<times> heap) option" where
  "scan_unit_st r h =
     (case objects h r of
        Some (Model u) \<Rightarrow>
          (let findings = scan_findings u;
               (obj, h1) = model_dump u h
           in Some (obj, set_findings obj findings h1))
      | _ \<Rightarrow> None)"

section \<open>Notions used in the statements\<close>

text \<open>
  The definitions of this section are not functions of the program: they name the
  offsets, the segments of a text and the example inputs that the lemmas and theorems
  speak about.
\<close>

text \<open>The keyword \<open>kw\<close> stands at offset \<open>i\<close> of \<open>t\<close>, in either case.\<close>

definition keyword_at :: "string \<Rightarrow> string \<Rightarrow> nat \<Rightarrow> bool" where
  "keyword_at kw t i =
     (i + length kw \<le> length t \<and> map lower (take (length kw) (drop i t)) = map lower kw)"

text \<open>The offset of the first character from \<open>j\<close> on that is not in the class \<open>p\<close>.\<close>

definition run_end :: "(char \<Rightarrow> bool) \<Rightarrow> string \<Rightarrow> nat \<Rightarrow> nat" where
  "run_end p t j = j + length (takeWhile p (drop j t))"

abbreviation notdot :: "char \<Rightarrow> bool" where
  "notdot \<equiv> (\<lambda>c. c \<noteq> CHR ''.'')"

abbreviation isdot :: "char \<Rightarrow> bool" where
  "isdot \<equiv> (\<lambda>c. c = CHR ''.'')"

text \<open>The end of the statement that starts at offset \<open>i\<close>, if one starts there.\<close>

definition stmt_end :: "string \<Rightarrow> nat \<Rightarrow> nat option" where
  "stmt_end t i =
     (if word_boundary t i \<and> keyword_at ''SPLIT'' t i \<and> word_boundary t (i + 5)
         \<and> run_end notdot t (i + 5) < length t
      then Some (Suc (run_end notdot t (i + 5))) else None)"

text \<open>The matches of \<open>STMT_RE\<close> that \<open>finditer\<close> finds from the offset \<open>pos\<close> on.\<close>

definition stmts_from :: "string \<Rightarrow> nat \<Rightarrow> (nat \<times> nat) list" where
  "stmts_from t pos = finditer_from STMT_RE t pos False"

text \<open>The test of the loop of \<open>scan_unit\<close> on a match, and the text the loop scans.\<close>

definition lacks_mode :: "string \<Rightarrow> nat \<times> nat \<Rightarrow> bool" where
  "lacks_mode src m = (\<not> has_mode (slice src (int (fst m)) (int (snd m))))"

definition source :: "'a Unit_scheme \<Rightarrow> string" where
  "source u = (case code u of None \<Rightarrow> [] | Some c \<Rightarrow> c)"

text \<open>A unit with the source text \<open>src\<close>, for the concrete instances below.\<close>

definition demo_unit :: "string \<Rightarrow> Unit" where
  "demo_unit src =
     \<lparr> pgm_name = ''ZPROG'', inc_name = ''ZINC'', type = ''form'', name = Some ''f1'',
       start_line = Some 10, end_line = Some 20, code = Some src \<rparr>"

text \<open>
  \<open>statement_at t s e\<close>: at offset \<open>s\<close> of \<open>t\<close> the keyword stands between two word
  boundaries, and \<open>e\<close> is the offset behind the first terminator that follows the keyword.
\<close>

definition statement_at :: "string \<Rightarrow> nat \<Rightarrow> nat \<Rightarrow> bool" where
  "statement_at t s e =
     (word_boundary t s \<and> keyword_at ''SPLIT'' t s \<and> word_boundary t (s + 5)
      \<and> s + 5 < e \<and> e \<le> length t \<and> t ! (e - 1) = CHR ''.''
      \<and> CHR ''.'' \<notin> set (take (e - 1 - (s + 5)) (drop (s + 5) t)))"

text \<open>
  White space from offset \<open>j\<close> on, then the keyword \<^verbatim>\<open>MODE\<close> and a word boundary.
\<close>

definition mode_tail :: "string \<Rightarrow> nat \<Rightarrow> bool" where
  "mode_tail t j =
     (\<exists>n. j < n \<and> n \<le> run_end is_space t j \<and> keyword_at ''MODE'' t n \<and> word_boundary t (n + 4))"

text \<open>The qualifier stands at offset \<open>i\<close> of \<open>t\<close>.\<close>

definition qualifier_at :: "string \<Rightarrow> nat \<Rightarrow> bool" where
  "qualifier_at t i =
     (word_boundary t i \<and> keyword_at ''IN'' t i
      \<and> (\<exists>m. i + 2 < m \<and> m \<le> run_end is_space t (i + 2)
            \<and> (keyword_at ''CHARACTER'' t m \<and> mode_tail t (m + 9)
               \<or> keyword_at ''BYTE'' t m \<and> mode_tail t (m + 4))))"

text \<open>
  The qualifier in the words of the specification: the keyword \<^verbatim>\<open>IN\<close>, white space, one of
  the two alternatives, white space, the keyword \<^verbatim>\<open>MODE\<close>, in either case; and its
  occurrence in a statement as a whole word.
\<close>

definition ci_eq :: "string \<Rightarrow> string \<Rightarrow> bool" where
  "ci_eq a b = (map lower a = map lower b)"

definition mode_qualifier :: "string \<Rightarrow> bool" where
  "mode_qualifier q =
     (\<exists>kin ws1 alt ws2 kmode.
        q = kin @ ws1 @ alt @ ws2 @ kmode
        \<and> ci_eq kin ''IN''
        \<and> ws1 \<noteq> [] \<and> list_all is_space ws1
        \<and> (ci_eq alt ''CHARACTER'' \<or> ci_eq alt ''BYTE'')
        \<and> ws2 \<noteq> [] \<and> list_all is_space ws2
        \<and> ci_eq kmode ''MODE'')"

definition has_qualifier :: "string \<Rightarrow> bool" where
  "has_qualifier stmt =
     (\<exists>pre q post.
        stmt = pre @ q @ post \<and> mode_qualifier q
        \<and> (pre = [] \<or> \<not> is_word (last pre))
        \<and> (post = [] \<or> \<not> is_word (hd post)))"

text \<open>
  A text is closed when it does not end in a word character and each keyword in it is
  followed by a terminator: the statements of a closed text followed by another text
  are those of the two texts.
\<close>

definition closed_text :: "string \<Rightarrow> bool" where
  "closed_text t =
     ((t = [] \<or> \<not> is_word (last t))
      \<and> (\<forall>i. keyword_at ''SPLIT'' t i \<longrightarrow> CHR ''.'' \<in> set (drop (i + 5) t)))"


text \<open>
  The matches of \<open>STMT_RE\<close> for which \<open>scan_unit\<close> appends a finding, and the lines of
  these findings.
\<close>

definition violations :: "string \<Rightarrow> (nat \<times> nat) list" where
  "violations t = filter (lacks_mode t) (finditer STMT_RE t)"

definition finding_lines :: "string \<Rightarrow> int list" where
  "finding_lines t = map (\<lambda>m. line_of_offset t (int (fst m))) (violations t)"



text \<open>A store with one unit, at the reference 0.\<close>

definition demo_heap :: heap where
  "demo_heap = \<lparr> objects = [0 \<mapsto> Model (demo_unit ''SPLIT a.'')], next_ref = 1 \<rparr>"

section \<open>The matcher on the two patterns\<close>

lemma of_char_lower:
  "(of_char (lower c) :: nat) =
     (let n = (of_char c :: nat)
      in if (65 \<le> n \<and> n \<le> 90) \<or> (192 \<le> n \<and> n \<le> 214) \<or> (216 \<le> n \<and> n \<le> 222)
         then n + 32 else n)"
  by (auto simp: lower_def Let_def)

lemma is_word_lower: "is_word (lower c) = is_word c"
  unfolding is_word_def of_char_lower by (simp add: Let_def)

lemma is_space_lower: "is_space (lower c) = is_space c"
  unfolding is_space_def of_char_lower by (simp add: Let_def)



lemma keyword_at_Nil: "keyword_at [] t i = (i \<le> length t)"
  by (simp add: keyword_at_def)

lemma keyword_at_Cons:
  "keyword_at (c # cs) t i = (i < length t \<and> lower (t ! i) = lower c \<and> keyword_at cs t (Suc i))"
proof (cases "i < length t")
  case True
  then have "drop i t = t ! i # drop (Suc i) t" by (simp add: Cons_nth_drop_Suc)
  with True show ?thesis by (auto simp: keyword_at_def)
qed (simp add: keyword_at_def)

lemma lits_Nil: "lits [] = Eps" and lits_Cons: "lits (c # cs) = Seq (Lit c) (lits cs)"
  by (simp_all add: lits_def)

lemma ends_lits:
  "i \<le> length t \<Longrightarrow>
     ends (lits kw) t i = (if keyword_at kw t i then [i + length kw] else [])"
proof (induction kw arbitrary: i)
  case Nil
  then show ?case by (simp add: lits_Nil keyword_at_Nil)
next
  case (Cons c cs)
  show ?case
  proof (cases "i < length t \<and> lower (t ! i) = lower c")
    case True
    then have "Suc i \<le> length t" by simp
    from Cons.IH [OF this] True show ?thesis
      by (simp add: lits_Cons keyword_at_Cons)
  next
    case False
    then show ?thesis by (auto simp: lits_Cons keyword_at_Cons)
  qed
qed

lemma run_end_le: "j \<le> length t \<Longrightarrow> run_end p t j \<le> length t"
proof -
  assume "j \<le> length t"
  have "length (takeWhile p (drop j t)) \<le> length (drop j t)" by (rule length_takeWhile_le)
  with \<open>j \<le> length t\<close> show ?thesis by (simp add: run_end_def)
qed

lemma run_end_ge: "j \<le> run_end p t j"
  by (simp add: run_end_def)

lemma run_end_inside: "j \<le> k \<Longrightarrow> k < run_end p t j \<Longrightarrow> k < length t \<and> p (t ! k)"
proof -
  assume a: "j \<le> k" "k < run_end p t j"
  let ?w = "takeWhile p (drop j t)"
  from a have lt: "k - j < length ?w" by (simp add: run_end_def)
  have "length ?w \<le> length (drop j t)" by (rule length_takeWhile_le)
  with lt a have kl: "k < length t" by simp
  from lt have "?w ! (k - j) = drop j t ! (k - j)" by (rule takeWhile_nth)
  moreover from lt have "p (?w ! (k - j))" by (meson nth_mem set_takeWhileD)
  ultimately show ?thesis using a kl by simp
qed

lemma run_end_stop: "run_end p t j < length t \<Longrightarrow> \<not> p (t ! run_end p t j)"
proof -
  assume a: "run_end p t j < length t"
  let ?w = "takeWhile p (drop j t)"
  from a have "length ?w < length (drop j t)" by (simp add: run_end_def)
  then have "\<not> p (drop j t ! length ?w)" by (rule nth_length_takeWhile)
  with a show ?thesis by (simp add: run_end_def add.commute)
qed

lemma run_end_first: "j \<le> k \<Longrightarrow> k < length t \<Longrightarrow> \<not> p (t ! k) \<Longrightarrow> run_end p t j \<le> k"
  using run_end_inside [of j k p t] by (meson not_le)

lemma concat_rev_upt_last:
  assumes "a \<le> b" and "\<And>m. a \<le> m \<Longrightarrow> m < b \<Longrightarrow> f m = []"
  shows "concat (map f (rev [a ..< Suc b])) = f b"
  using assms
proof (induction "b - a" arbitrary: a)
  case 0
  then show ?case by simp
next
  case (Suc n)
  then have ab: "a < b" by simp
  then have "[a ..< Suc b] = a # [Suc a ..< Suc b]" by (simp add: upt_rec)
  moreover have "concat (map f (rev [Suc a ..< Suc b])) = f b"
    using Suc.hyps ab Suc.prems by (intro Suc.hyps(1)) auto
  moreover have "f a = []" using Suc.prems ab by simp
  ultimately show ?case by simp
qed

lemma ends_Many_then:
  "ends (Seq (Many p) r) t j = concat (map (ends r t) (rev [j ..< Suc (run_end p t j)]))"
  by (simp add: run_end_def)

lemma ends_Seq_WordB:
  "ends (Seq WordB r) t i = (if word_boundary t i then ends r t i else [])"
  by simp

lemma ends_Seq_lits:
  "i \<le> length t \<Longrightarrow>
     ends (Seq (lits kw) r) t i = (if keyword_at kw t i then ends r t (i + length kw) else [])"
  by (simp add: ends_lits)

lemma ends_body:
  "ends (Seq (Many notdot) (Cls isdot)) t j =
     (if run_end notdot t j < length t then [Suc (run_end notdot t j)] else [])"
proof -
  let ?e = "run_end notdot t j"
  have "concat (map (ends (Cls isdot) t) (rev [j ..< Suc ?e])) = ends (Cls isdot) t ?e"
  proof (rule concat_rev_upt_last)
    show "j \<le> ?e" by (rule run_end_ge)
  next
    fix m assume "j \<le> m" "m < ?e"
    then have "t ! m \<noteq> CHR ''.''" using run_end_inside [of j m notdot t] by simp
    then show "ends (Cls isdot) t m = []" by simp
  qed
  moreover have "?e < length t \<Longrightarrow> t ! ?e = CHR ''.''"
    using run_end_stop [of notdot t j] by simp
  ultimately show ?thesis unfolding ends_Many_then by auto
qed

lemma ends_STMT_RE:
  assumes "i \<le> length t"
  shows "ends STMT_RE t i = (case stmt_end t i of None \<Rightarrow> [] | Some e \<Rightarrow> [e])"
proof -
  let ?body = "Seq (Many notdot) (Cls isdot)"
  have len: "length ''SPLIT'' = 5" by simp
  have "ends STMT_RE t i =
      (if word_boundary t i then ends (Seq (lits ''SPLIT'') (Seq WordB ?body)) t i else [])"
    unfolding STMT_RE_def by (rule ends_Seq_WordB)
  also have "ends (Seq (lits ''SPLIT'') (Seq WordB ?body)) t i =
      (if keyword_at ''SPLIT'' t i then ends (Seq WordB ?body) t (i + 5) else [])"
    unfolding ends_Seq_lits [OF assms] len ..
  also have "ends (Seq WordB ?body) t (i + 5) =
      (if word_boundary t (i + 5) then ends ?body t (i + 5) else [])"
    by (rule ends_Seq_WordB)
  finally show ?thesis unfolding ends_body stmt_end_def by simp
qed

lemma search_False_Some:
  "\<not> adv \<Longrightarrow> search r t pos adv = Some (s, e) \<longleftrightarrow>
     pos \<le> s \<and> s \<le> length t \<and> (\<exists>es. ends r t s = e # es)
       \<and> (\<forall>i. pos \<le> i \<and> i < s \<longrightarrow> ends r t i = [])"
proof (induction r t pos adv rule: search.induct)
  case (1 r t pos adv)
  show ?case
  proof (cases "length t < pos")
    case True
    then show ?thesis by (auto simp: search.simps [of r t pos adv])
  next
    case le: False
    show ?thesis
    proof (cases "ends r t pos")
      case Nil
      then have f: "filter (\<lambda>e. \<not> (adv \<and> e = pos)) (ends r t pos) = []" by simp
      have "search r t pos adv = search r t (Suc pos) False"
        using le f by (simp add: search.simps [of r t pos adv])
      moreover have "(\<forall>i. pos \<le> i \<and> i < s \<longrightarrow> ends r t i = []) \<longleftrightarrow>
          (pos < s \<longrightarrow> (\<forall>i. Suc pos \<le> i \<and> i < s \<longrightarrow> ends r t i = []))"
        using Nil by (metis Suc_leI le_eq_less_or_eq less_le_trans lessI less_imp_le_nat)
      moreover have "pos \<noteq> s \<or> \<not> (\<exists>es. ends r t s = e # es)" using Nil by auto
      ultimately show ?thesis using "1.IH" [OF le f] by (auto simp: Suc_le_eq)
    next
      case (Cons x xs)
      with "1.prems" have "search r t pos adv = Some (pos, x)"
        using le by (simp add: search.simps [of r t pos False])
      moreover have "(\<forall>i. pos \<le> i \<and> i < s \<longrightarrow> ends r t i = []) \<longleftrightarrow> s \<le> pos"
      proof
        assume "\<forall>i. pos \<le> i \<and> i < s \<longrightarrow> ends r t i = []"
        then have "\<not> pos < s" using Cons by auto
        then show "s \<le> pos" by simp
      qed auto
      ultimately show ?thesis using Cons le by auto
    qed
  qed
qed

lemma search_False_None:
  "\<not> adv \<Longrightarrow> search r t pos adv = None \<longleftrightarrow> (\<forall>i. pos \<le> i \<and> i \<le> length t \<longrightarrow> ends r t i = [])"
proof (induction r t pos adv rule: search.induct)
  case (1 r t pos adv)
  show ?case
  proof (cases "length t < pos")
    case True
    then show ?thesis by (auto simp: search.simps [of r t pos adv])
  next
    case le: False
    show ?thesis
    proof (cases "ends r t pos")
      case Nil
      then have f: "filter (\<lambda>e. \<not> (adv \<and> e = pos)) (ends r t pos) = []" by simp
      have "search r t pos adv = search r t (Suc pos) False"
        using le f by (simp add: search.simps [of r t pos adv])
      moreover have "(\<forall>i. pos \<le> i \<and> i \<le> length t \<longrightarrow> ends r t i = []) \<longleftrightarrow>
          (\<forall>i. Suc pos \<le> i \<and> i \<le> length t \<longrightarrow> ends r t i = [])"
      proof (intro iffI allI impI)
        fix i assume a: "\<forall>i. Suc pos \<le> i \<and> i \<le> length t \<longrightarrow> ends r t i = []"
          and b: "pos \<le> i \<and> i \<le> length t"
        show "ends r t i = []"
        proof (cases "i = pos")
          case True
          with Nil show ?thesis by simp
        next
          case False
          with b have "Suc pos \<le> i" by simp
          with a b show ?thesis by blast
        qed
      qed simp
      ultimately show ?thesis using "1.IH" [OF le f] by simp
    next
      case (Cons x xs)
      with "1.prems" have "search r t pos adv = Some (pos, x)"
        using le by (simp add: search.simps [of r t pos False])
      then show ?thesis using Cons le by (auto intro: exI [of _ pos])
    qed
  qed
qed

lemma stmt_end_SomeD:
  assumes "stmt_end t s = Some e"
  shows "word_boundary t s" "keyword_at ''SPLIT'' t s" "word_boundary t (s + 5)"
    "e = Suc (run_end notdot t (s + 5))" "s + 5 < e" "e \<le> length t" "t ! (e - 1) = CHR ''.''"
proof -
  from assms show a: "word_boundary t s" "keyword_at ''SPLIT'' t s" "word_boundary t (s + 5)"
    and e: "e = Suc (run_end notdot t (s + 5))"
    by (auto simp: stmt_end_def split: if_splits)
  from assms have lt: "run_end notdot t (s + 5) < length t"
    by (auto simp: stmt_end_def split: if_splits)
  from e run_end_ge [of "s + 5" notdot t] show "s + 5 < e" by simp
  from e lt show "e \<le> length t" by simp
  from run_end_stop [OF lt] e show "t ! (e - 1) = CHR ''.''" by simp
qed

lemma search_STMT_Some:
  "search STMT_RE t pos False = Some (s, e) \<longleftrightarrow>
     pos \<le> s \<and> s \<le> length t \<and> stmt_end t s = Some e
       \<and> (\<forall>i. pos \<le> i \<and> i < s \<longrightarrow> stmt_end t i = None)"
proof -
  have a: "(\<exists>es. ends STMT_RE t s = e # es) \<longleftrightarrow> stmt_end t s = Some e" if "s \<le> length t"
    unfolding ends_STMT_RE [OF that] by (cases "stmt_end t s") auto
  have b: "ends STMT_RE t i = [] \<longleftrightarrow> stmt_end t i = None" if "i \<le> length t" for i
    unfolding ends_STMT_RE [OF that] by (cases "stmt_end t i") auto
  have c: "(\<forall>i. pos \<le> i \<and> i < s \<longrightarrow> ends STMT_RE t i = []) \<longleftrightarrow>
      (\<forall>i. pos \<le> i \<and> i < s \<longrightarrow> stmt_end t i = None)" if "s \<le> length t"
    using b that by (meson le_trans less_imp_le_nat)
  show ?thesis
    unfolding search_False_Some [of False STMT_RE t pos s e, simplified]
    using a c by blast
qed

lemma search_STMT_None:
  "search STMT_RE t pos False = None \<longleftrightarrow>
     (\<forall>i. pos \<le> i \<and> i \<le> length t \<longrightarrow> stmt_end t i = None)"
proof -
  have b: "ends STMT_RE t i = [] \<longleftrightarrow> stmt_end t i = None" if "i \<le> length t" for i
    unfolding ends_STMT_RE [OF that] by (cases "stmt_end t i") auto
  show ?thesis
    unfolding search_False_None [of False STMT_RE t pos, simplified]
    using b by blast
qed

lemma stmts_from_None:
  "search STMT_RE t pos False = None \<Longrightarrow> stmts_from t pos = []"
  by (simp add: stmts_from_def finditer_from.simps [of STMT_RE t pos False])

lemma stmts_from_Some:
  assumes "search STMT_RE t pos False = Some (s, e)"
  shows "stmts_from t pos = (s, e) # stmts_from t e"
proof -
  from assms have "stmt_end t s = Some e" by (simp add: search_STMT_Some)
  then have "e \<noteq> s" using stmt_end_SomeD(5) [of t s e] by simp
  with assms show ?thesis
    by (simp add: stmts_from_def finditer_from.simps [of STMT_RE t pos False])
qed

lemma stmts_from_induct [consumes 0, case_names None Some]:
  assumes "\<And>pos. search STMT_RE t pos False = None \<Longrightarrow> P pos"
    and "\<And>pos s e. search STMT_RE t pos False = Some (s, e) \<Longrightarrow> P e \<Longrightarrow> P pos"
  shows "P pos"
proof (induction "Suc (length t) - pos" arbitrary: pos rule: less_induct)
  case less
  show ?case
  proof (cases "search STMT_RE t pos False")
    case None
    then show ?thesis by (rule assms(1))
  next
    case (Some m)
    obtain s e where m: "m = (s, e)" by (cases m)
    with Some have se: "search STMT_RE t pos False = Some (s, e)" by simp
    then have "pos \<le> s" "s \<le> length t" "stmt_end t s = Some e"
      by (simp_all add: search_STMT_Some)
    then have "Suc (length t) - e < Suc (length t) - pos"
      using stmt_end_SomeD(5) [of t s e] by simp
    then have "P e" by (rule less)
    with se show ?thesis by (rule assms(2))
  qed
qed

lemma finditer_STMT: "finditer STMT_RE t = stmts_from t 0"
  by (simp add: finditer_def stmts_from_def)

lemma foldl_scan_step:
  "foldl (scan_step u src) acc ms = acc @ map (make_finding u src) (filter (lacks_mode src) ms)"
  by (induction ms arbitrary: acc) (auto simp: scan_step_def lacks_mode_def Let_def)

lemma scan_findings_eq:
  "scan_findings u =
     map (make_finding u (source u)) (filter (lacks_mode (source u)) (finditer STMT_RE (source u)))"
  by (simp add: scan_findings_def source_def foldl_scan_step Let_def)

lemma count_dots_drop:
  assumes "pos < e" "e \<le> length t" "t ! (e - 1) = CHR ''.''"
  shows "Suc (length (filter isdot (drop e t))) \<le> length (filter isdot (drop pos t))"
proof -
  let ?a = "take (e - pos) (drop pos t)"
  have split: "drop pos t = ?a @ drop e t"
    using assms by (metis add_diff_inverse_nat append_take_drop_id drop_drop less_imp_le_nat not_le add.commute)
  have "?a ! (e - 1 - pos) = t ! (e - 1)" using assms by simp
  moreover have "e - 1 - pos < length ?a" using assms by simp
  ultimately have "CHR ''.'' \<in> set ?a" using assms(3) by (metis nth_mem)
  then have "filter isdot ?a \<noteq> []" by (simp add: filter_empty_conv)
  then have "Suc 0 \<le> length (filter isdot ?a)" by (simp add: Suc_le_eq)
  moreover have "filter isdot (drop pos t) = filter isdot ?a @ filter isdot (drop e t)"
    using split by (metis filter_append)
  ultimately show ?thesis by (simp del: length_greater_0_conv)
qed

lemma length_stmts_from: "length (stmts_from t pos) \<le> length (filter isdot (drop pos t))"
proof (induction pos rule: stmts_from_induct [of t])
  case (None pos)
  then show ?case by (simp add: stmts_from_None)
next
  case (Some pos s e)
  then have se: "pos \<le> s" "stmt_end t s = Some e" by (simp_all add: search_STMT_Some)
  note d = stmt_end_SomeD [OF se(2)]
  have "Suc (length (filter isdot (drop e t))) \<le> length (filter isdot (drop pos t))"
    using se(1) d(5,6,7) by (intro count_dots_drop) auto
  with Some show ?case by (simp add: stmts_from_Some)
qed

lemma findings_scan_unit: "rule116_findings (scan_unit u) = scan_findings u"
  by (simp add: scan_unit_def Unit.extend_def)

lemma adjust_index_nat: "adjust_index n (int k) = min n k"
  by (simp add: adjust_index_def)

lemma slice_nat: "slice xs (int a) (int b) = take (min (length xs) b - min (length xs) a) (drop (min (length xs) a) xs)"
  by (simp add: slice_def adjust_index_nat Let_def)



lemma replace_char:
  "replace [c] new s = concat (map (\<lambda>x. if x = c then new else [x]) s)"
proof (induction s)
  case Nil
  show ?case by (simp add: replace.simps [of "[c]" new "[]"])
next
  case (Cons x xs)
  then show ?case by (simp add: replace.simps [of "[c]" new "x # xs"])
qed

lemma snippet_at_nat:
  "snippet_at t (int s) (int e) =
     concat (map (\<lambda>x. if x = CHR 0x0A then [CHR 0x5C, CHR ''n''] else [x])
       (take (min (length t) (e + 60) - (s - 60)) (drop (s - 60) t)))"
proof -
  have a: "max 0 (int s - 60) = int (s - 60)" by simp
  have b: "min (int (length t)) (int e + 60) = int (min (length t) (e + 60))" by simp
  show ?thesis
    unfolding snippet_at_def Let_def a b slice_nat replace_char
    by (cases "s - 60 \<le> length t") (simp_all add: min_def)
qed

lemma snippet_no_newline: "CHR 0x0A \<notin> set (snippet_at t a b)"
  by (auto simp: snippet_at_def Let_def replace_char split: if_splits)

lemma length_filter_eq_count: "length (filter (\<lambda>c. c = x) xs) = count_list xs x"
  by (induction xs) auto

section \<open>The number of findings and the terminators\<close>

text \<open>
  C10: for every source text, the number of findings of \<open>scan_unit\<close> is at most the
  number of \<^verbatim>\<open>.\<close> characters of the text: every matched statement ends at a
  terminator of its own, and the scan resumes behind it.
\<close>

theorem findings_le_terminators:
  "code u = Some src \<Longrightarrow> length (rule116_findings (scan_unit u)) \<le> count_list src CHR ''.''"
proof -
  assume "code u = Some src"
  then have src: "source u = src" by (simp add: source_def)
  have "length (scan_findings u) \<le> length (stmts_from src 0)"
    unfolding scan_findings_eq src finditer_STMT by simp
  also have "\<dots> \<le> length (filter isdot src)" using length_stmts_from [of src 0] by simp
  also have "\<dots> = count_list src CHR ''.''"
    by (rule length_filter_eq_count)
  finally show ?thesis by (simp add: findings_scan_unit)
qed

theorem findings_le_terminators_witness:
  "code (demo_unit ''SPLIT a. b.'') = Some ''SPLIT a. b.''
     \<and> length (rule116_findings (scan_unit (demo_unit ''SPLIT a. b.''))) \<le> count_list ''SPLIT a. b.'' CHR ''.''
     \<and> length (rule116_findings (scan_unit (demo_unit ''SPLIT a. b.''))) = 1"
proof -
  have h: "code (demo_unit ''SPLIT a. b.'') = Some ''SPLIT a. b.''" by (simp add: demo_unit_def)
  have "length (rule116_findings (scan_unit (demo_unit ''SPLIT a. b.''))) = 1" by code_simp
  with h findings_le_terminators [OF h] show ?thesis by simp
qed

lemma stmt_end_Nil: "stmt_end [] i = None"
  by (simp add: stmt_end_def keyword_at_def)

lemma stmts_from_no_dot:
  assumes "CHR ''.'' \<notin> set t"
  shows "stmts_from t pos = []"
proof -
  have "stmt_end t i = None" for i
  proof (cases "stmt_end t i")
    case (Some e)
    from stmt_end_SomeD(5,6,7) [OF Some] have "e - 1 < length t" "t ! (e - 1) = CHR ''.''"
      by auto
    with assms show ?thesis by (metis nth_mem)
  qed simp
  then have "search STMT_RE t pos False = None" by (simp add: search_STMT_None)
  then show ?thesis by (rule stmts_from_None)
qed

lemma stmts_from_no_keyword:
  assumes "\<And>i. \<not> keyword_at ''SPLIT'' t i"
  shows "stmts_from t pos = []"
proof -
  have "stmt_end t i = None" for i using assms by (simp add: stmt_end_def)
  then have "search STMT_RE t pos False = None" by (simp add: search_STMT_None)
  then show ?thesis by (rule stmts_from_None)
qed

lemma scan_findings_no_stmts:
  "finditer STMT_RE (source u) = [] \<Longrightarrow> scan_findings u = []"
  by (simp add: scan_findings_eq)

lemma in_scan_findings:
  "f \<in> set (scan_findings u) \<longleftrightarrow>
     (\<exists>m \<in> set (finditer STMT_RE (source u)). lacks_mode (source u) m \<and> f = make_finding u (source u) m)"
  by (auto simp: scan_findings_eq)

section \<open>The fields of a finding\<close>

text \<open>
  C5: every finding of \<open>scan_unit\<close> has the issue kind \<^verbatim>\<open>SplitWithoutMode\<close>, the
  severity \<^verbatim>\<open>warning\<close>, the fixed message and the fixed suggestion with its two forms,
  and carries the six identifying attributes of the unit unchanged.
\<close>

theorem finding_fields:
  "\<forall>f \<in> set (rule116_findings (scan_unit u)).
     issue_type f = ''SplitWithoutMode'' \<and> severity f = ''warning''
     \<and> message f = ''SPLIT without MODE. Specify IN CHARACTER MODE (text) or IN BYTE MODE (binary).''
     \<and> suggestion f =
         ''SPLIT <text> AT <sep> INTO <f1> <f2> ... IN CHARACTER MODE.'' @ [CHR 0x0A] @
         ''* or *'' @ [CHR 0x0A] @
         ''SPLIT <xbin> AT <xsep> INTO <x1> <x2> ... IN BYTE MODE. Specify IN CHARACTER MODE (text) or IN BYTE MODE (binary).''
     \<and> pgm_name f = pgm_name u \<and> inc_name f = inc_name u \<and> type f = type u \<and> name f = name u
     \<and> start_line f = start_line u \<and> end_line f = end_line u"
proof
  fix f assume "f \<in> set (rule116_findings (scan_unit u))"
  then obtain m where "f = make_finding u (source u) m"
    unfolding findings_scan_unit in_scan_findings by blast
  then show "issue_type f = ''SplitWithoutMode'' \<and> severity f = ''warning''
     \<and> message f = ''SPLIT without MODE. Specify IN CHARACTER MODE (text) or IN BYTE MODE (binary).''
     \<and> suggestion f =
         ''SPLIT <text> AT <sep> INTO <f1> <f2> ... IN CHARACTER MODE.'' @ [CHR 0x0A] @
         ''* or *'' @ [CHR 0x0A] @
         ''SPLIT <xbin> AT <xsep> INTO <x1> <x2> ... IN BYTE MODE. Specify IN CHARACTER MODE (text) or IN BYTE MODE (binary).''
     \<and> pgm_name f = pgm_name u \<and> inc_name f = inc_name u \<and> type f = type u \<and> name f = name u
     \<and> start_line f = start_line u \<and> end_line f = end_line u"
    by (cases m) (simp add: make_finding_def message_text_def suggestion_text_def)
qed

text \<open>The end-to-end example of the specification: one finding, on line 1.\<close>

theorem finding_fields_witness:
  "length (rule116_findings (scan_unit
      (demo_unit (''SPLIT lv_text AT '' @ [CHR 0x27] @ ''/'' @ [CHR 0x27] @ '' INTO lv1 lv2.'')))) = 1
   \<and> line (hd (rule116_findings (scan_unit
      (demo_unit (''SPLIT lv_text AT '' @ [CHR 0x27] @ ''/'' @ [CHR 0x27] @ '' INTO lv1 lv2.''))))) = 1
   \<and> issue_type (hd (rule116_findings (scan_unit
      (demo_unit (''SPLIT lv_text AT '' @ [CHR 0x27] @ ''/'' @ [CHR 0x27] @ '' INTO lv1 lv2.''))))) = ''SplitWithoutMode''
   \<and> severity (hd (rule116_findings (scan_unit
      (demo_unit (''SPLIT lv_text AT '' @ [CHR 0x27] @ ''/'' @ [CHR 0x27] @ '' INTO lv1 lv2.''))))) = ''warning''
   \<and> pgm_name (hd (rule116_findings (scan_unit
      (demo_unit (''SPLIT lv_text AT '' @ [CHR 0x27] @ ''/'' @ [CHR 0x27] @ '' INTO lv1 lv2.''))))) = ''ZPROG''
   \<and> end_line (hd (rule116_findings (scan_unit
      (demo_unit (''SPLIT lv_text AT '' @ [CHR 0x27] @ ''/'' @ [CHR 0x27] @ '' INTO lv1 lv2.''))))) = Some 20"
proof -
  let ?u = "demo_unit (''SPLIT lv_text AT '' @ [CHR 0x27] @ ''/'' @ [CHR 0x27] @ '' INTO lv1 lv2.'')"
  let ?fs = "rule116_findings (scan_unit ?u)"
  have len: "length ?fs = 1" by code_simp
  have ln: "line (hd ?fs) = 1" by code_simp
  from len have "hd ?fs \<in> set ?fs" by (cases ?fs) simp_all
  with finding_fields [of ?u] have
    "issue_type (hd ?fs) = ''SplitWithoutMode'' \<and> severity (hd ?fs) = ''warning''
     \<and> pgm_name (hd ?fs) = pgm_name ?u \<and> end_line (hd ?fs) = end_line ?u"
    by blast
  moreover have "pgm_name ?u = ''ZPROG''" "end_line ?u = Some 20" by (simp_all add: demo_unit_def)
  ultimately show ?thesis using len ln by simp
qed

section \<open>The batch endpoint\<close>

lemma foldl_scan_rule:
  "foldl (\<lambda>results u. let res = scan_unit u
                      in if rule116_findings res \<noteq> [] then results @ [res] else results) acc units
     = acc @ filter (\<lambda>res. rule116_findings res \<noteq> []) (map scan_unit units)"
  by (induction units arbitrary: acc) (simp_all add: Let_def)

text \<open>
  C6: \<open>scan_rule\<close> scans the units in input order and returns, in that order, the results
  of exactly the units with a non-empty findings list; a result is the unit's own fields
  and the findings list.
\<close>

theorem scan_rule_filter:
  "scan_rule units = filter (\<lambda>res. rule116_findings res \<noteq> []) (map scan_unit units)
   \<and> scan_rule units = map scan_unit (filter (\<lambda>u. scan_findings u \<noteq> []) units)
   \<and> (\<forall>u. scan_unit u =
         \<lparr> pgm_name = pgm_name u, inc_name = inc_name u, type = type u, name = name u,
           start_line = start_line u, end_line = end_line u, code = code u,
           rule116_findings = scan_findings u \<rparr>)"
proof (intro conjI allI)
  show a: "scan_rule units = filter (\<lambda>res. rule116_findings res \<noteq> []) (map scan_unit units)"
    unfolding scan_rule_def foldl_scan_rule by simp
  show "scan_rule units = map scan_unit (filter (\<lambda>u. scan_findings u \<noteq> []) units)"
    unfolding a by (induction units) (simp_all add: findings_scan_unit)
  show "scan_unit u =
         \<lparr> pgm_name = pgm_name u, inc_name = inc_name u, type = type u, name = name u,
           start_line = start_line u, end_line = end_line u, code = code u,
           rule116_findings = scan_findings u \<rparr>" for u
    by (cases u) (simp add: scan_unit_def Unit.extend_def)
qed

text \<open>
  The batch example of the specification: of a compliant and a non-compliant unit, only
  the second is returned, with one finding.
\<close>

theorem scan_rule_filter_witness:
  "scan_rule [demo_unit ''SPLIT a AT b INTO c d IN CHARACTER MODE.'', demo_unit ''SPLIT a AT b INTO c d.'']
     = [scan_unit (demo_unit ''SPLIT a AT b INTO c d.'')]
   \<and> length (rule116_findings (scan_unit (demo_unit ''SPLIT a AT b INTO c d.''))) = 1"
proof -
  let ?u1 = "demo_unit ''SPLIT a AT b INTO c d IN CHARACTER MODE.''"
  let ?u2 = "demo_unit ''SPLIT a AT b INTO c d.''"
  have a: "scan_findings ?u1 = []" by code_simp
  have b: "length (scan_findings ?u2) = 1" by code_simp
  then have c: "scan_findings ?u2 \<noteq> []" by auto
  from scan_rule_filter [of "[?u1, ?u2]"]
  have "scan_rule [?u1, ?u2] = map scan_unit (filter (\<lambda>u. scan_findings u \<noteq> []) [?u1, ?u2])"
    by blast
  with a b c show ?thesis by (simp add: findings_scan_unit)
qed

section \<open>Boundary inputs\<close>

lemma source_Some: "code u = Some src \<Longrightarrow> source u = src"
  and source_None: "code u = None \<Longrightarrow> source u = []"
  by (simp_all add: source_def)

lemma finditer_STMT_Nil: "finditer STMT_RE [] = []"
  unfolding finditer_STMT by (rule stmts_from_no_dot) simp

text \<open>
  C9: a unit whose \<^verbatim>\<open>code\<close> is \<^verbatim>\<open>None\<close> is scanned as the unit with the empty text:
  the findings list is empty.
\<close>

theorem scan_code_None:
  "code u = None \<Longrightarrow>
     rule116_findings (scan_unit u) = []
     \<and> rule116_findings (scan_unit u) = rule116_findings (scan_unit (u\<lparr>code := Some []\<rparr>))"
proof -
  assume n: "code u = None"
  have "scan_findings u = []"
    by (rule scan_findings_no_stmts) (simp add: source_None [OF n] finditer_STMT_Nil)
  moreover have "scan_findings (u\<lparr>code := Some []\<rparr>) = []"
    by (rule scan_findings_no_stmts) (simp add: source_def finditer_STMT_Nil)
  ultimately show ?thesis by (simp add: findings_scan_unit)
qed

theorem scan_code_None_witness:
  "code ((demo_unit ''SPLIT a.'')\<lparr>code := None\<rparr>) = None
   \<and> rule116_findings (scan_unit ((demo_unit ''SPLIT a.'')\<lparr>code := None\<rparr>)) = []
   \<and> scan_rule [(demo_unit ''SPLIT a.'')\<lparr>code := None\<rparr>] = []"
proof -
  let ?u = "(demo_unit ''SPLIT a.'')\<lparr>code := None\<rparr>"
  have h: "code ?u = None" by simp
  from scan_code_None [OF h] have e: "rule116_findings (scan_unit ?u) = []" by blast
  have "scan_rule [?u] = []" by code_simp
  with h e show ?thesis by simp
qed

text \<open>
  C7: \<open>scan_unit\<close> is a total function: its loops are the terminating recursions
  \<open>search\<close> and \<open>finditer_from\<close>, and none of its operations has a failing case, so
  every unit has a findings list. The empty text, a text with no terminator and a text
  with no keyword have the empty findings list.
\<close>

theorem scan_boundary:
  "code u = Some src \<Longrightarrow>
     (src = [] \<longrightarrow> rule116_findings (scan_unit u) = [])
     \<and> (CHR ''.'' \<notin> set src \<longrightarrow> rule116_findings (scan_unit u) = [])
     \<and> ((\<forall>i. \<not> keyword_at ''SPLIT'' src i) \<longrightarrow> rule116_findings (scan_unit u) = [])"
proof -
  assume c: "code u = Some src"
  have a: "CHR ''.'' \<notin> set src \<longrightarrow> rule116_findings (scan_unit u) = []"
    unfolding findings_scan_unit
    by (intro impI scan_findings_no_stmts)
       (simp add: source_Some [OF c] finditer_STMT stmts_from_no_dot)
  have b: "(\<forall>i. \<not> keyword_at ''SPLIT'' src i) \<longrightarrow> rule116_findings (scan_unit u) = []"
    unfolding findings_scan_unit
    by (intro impI scan_findings_no_stmts)
       (simp add: source_Some [OF c] finditer_STMT stmts_from_no_keyword)
  from a b show ?thesis by auto
qed

theorem scan_boundary_witness:
  "code (demo_unit []) = Some [] \<and> rule116_findings (scan_unit (demo_unit [])) = []
   \<and> code (demo_unit ''SPLIT a AT b INTO c d'') = Some ''SPLIT a AT b INTO c d''
   \<and> CHR ''.'' \<notin> set ''SPLIT a AT b INTO c d''
   \<and> rule116_findings (scan_unit (demo_unit ''SPLIT a AT b INTO c d'')) = []"
proof -
  have h1: "code (demo_unit []) = Some []" by (simp add: demo_unit_def)
  have h2: "code (demo_unit ''SPLIT a AT b INTO c d'') = Some ''SPLIT a AT b INTO c d''"
    by (simp add: demo_unit_def)
  have h3: "CHR ''.'' \<notin> set ''SPLIT a AT b INTO c d''" by simp
  from scan_boundary [OF h1] have "rule116_findings (scan_unit (demo_unit [])) = []" by blast
  moreover from scan_boundary [OF h2] h3
  have "rule116_findings (scan_unit (demo_unit ''SPLIT a AT b INTO c d'')) = []" by blast
  ultimately show ?thesis using h1 h2 h3 by blast
qed

section \<open>Statement extraction\<close>

lemma run_end_eqI:
  assumes "j \<le> k" "k < length t" "\<not> p (t ! k)" "\<forall>x \<in> set (take (k - j) (drop j t)). p x"
  shows "run_end p t j = k"
proof (rule antisym)
  show "run_end p t j \<le> k" using assms(1-3) by (rule run_end_first)
  show "k \<le> run_end p t j"
  proof (rule ccontr)
    assume "\<not> k \<le> run_end p t j"
    then have lt: "run_end p t j < k" by simp
    let ?r = "run_end p t j"
    have ge: "j \<le> ?r" by (rule run_end_ge)
    from lt assms(2) have "?r < length t" by simp
    then have np: "\<not> p (t ! ?r)" by (rule run_end_stop)
    have "take (k - j) (drop j t) ! (?r - j) = t ! ?r" using lt ge assms(2) by simp
    moreover have "?r - j < length (take (k - j) (drop j t))" using lt ge assms(2) by simp
    ultimately have "t ! ?r \<in> set (take (k - j) (drop j t))" by (metis nth_mem)
    with assms(4) np show False by blast
  qed
qed

lemma run_end_take:
  "take (run_end p t j - j) (drop j t) = takeWhile p (drop j t)"
  by (simp add: run_end_def takeWhile_eq_take [symmetric])

lemma statement_atD:
  assumes "statement_at t s e"
  shows "word_boundary t s" "keyword_at ''SPLIT'' t s" "word_boundary t (s + 5)"
    "s + 5 < e" "e \<le> length t" "t ! (e - 1) = CHR ''.''"
    "CHR ''.'' \<notin> set (take (e - 1 - (s + 5)) (drop (s + 5) t))"
  using assms unfolding statement_at_def by blast+

lemma stmt_end_iff: "stmt_end t s = Some e \<longleftrightarrow> statement_at t s e"
proof
  assume a: "stmt_end t s = Some e"
  note d = stmt_end_SomeD [OF a]
  from d(4) have "take (e - 1 - (s + 5)) (drop (s + 5) t) = takeWhile notdot (drop (s + 5) t)"
    by (simp add: run_end_take)
  moreover have "CHR ''.'' \<notin> set (takeWhile notdot (drop (s + 5) t))"
    using set_takeWhileD [of "CHR ''.''" notdot "drop (s + 5) t"] by blast
  ultimately have "CHR ''.'' \<notin> set (take (e - 1 - (s + 5)) (drop (s + 5) t))"
    by simp
  with d(1,2,3,5,6,7) show "statement_at t s e" unfolding statement_at_def by blast
next
  assume a: "statement_at t s e"
  note d = statement_atD [OF a]
  have "run_end notdot t (s + 5) = e - 1"
  proof (rule run_end_eqI)
    show "s + 5 \<le> e - 1" using d(4) by simp
    show "e - 1 < length t" using d(4,5) by simp
    show "\<not> notdot (t ! (e - 1))" using d(6) by simp
    show "\<forall>x \<in> set (take (e - 1 - (s + 5)) (drop (s + 5) t)). notdot x" using d(7) by blast
  qed
  moreover from this d(4,5) have "run_end notdot t (s + 5) < length t"
    and "Suc (run_end notdot t (s + 5)) = e" by simp_all
  ultimately show "stmt_end t s = Some e" unfolding stmt_end_def using d(1,2,3) by simp
qed

lemma stmts_from_sound:
  "(s, e) \<in> set (stmts_from t pos) \<Longrightarrow> pos \<le> s \<and> stmt_end t s = Some e"
proof (induction pos rule: stmts_from_induct [of t])
  case (None pos)
  then show ?case by (simp add: stmts_from_None)
next
  case (Some pos s0 e0)
  from Some.hyps have h: "pos \<le> s0" "stmt_end t s0 = Some e0" by (simp_all add: search_STMT_Some)
  from Some.prems have "(s, e) = (s0, e0) \<or> (s, e) \<in> set (stmts_from t e0)"
    by (simp add: stmts_from_Some [OF Some.hyps])
  then show ?case
  proof
    assume "(s, e) = (s0, e0)"
    with h show ?thesis by simp
  next
    assume "(s, e) \<in> set (stmts_from t e0)"
    then have "e0 \<le> s" "stmt_end t s = Some e" using Some.IH by simp_all
    with h stmt_end_SomeD(5) [OF h(2)] show ?thesis by simp
  qed
qed

lemma stmts_from_sorted: "sorted_wrt (\<lambda>a b. snd a \<le> fst b) (stmts_from t pos)"
proof (induction pos rule: stmts_from_induct [of t])
  case (None pos)
  then show ?case by (simp add: stmts_from_None)
next
  case (Some pos s e)
  have "e \<le> fst b" if "b \<in> set (stmts_from t e)" for b
    using stmts_from_sound [of "fst b" "snd b" t e] that by simp
  with Some show ?case by (simp add: stmts_from_Some)
qed

lemma stmts_from_complete:
  "stmt_end t s = Some e \<Longrightarrow> pos \<le> s \<Longrightarrow>
     (s, e) \<in> set (stmts_from t pos) \<or> (\<exists>(s', e') \<in> set (stmts_from t pos). s' < s \<and> s < e')"
proof (induction pos rule: stmts_from_induct [of t])
  case (None pos)
  from stmt_end_SomeD(5,6) [OF None.prems(1)] have "s \<le> length t" by simp
  with None show ?case by (simp add: search_STMT_None)
next
  case (Some pos s0 e0)
  from Some.hyps have h: "stmt_end t s0 = Some e0"
    and first: "\<And>i. pos \<le> i \<Longrightarrow> i < s0 \<Longrightarrow> stmt_end t i = None"
    by (simp_all add: search_STMT_Some)
  have eq: "stmts_from t pos = (s0, e0) # stmts_from t e0" by (rule stmts_from_Some [OF Some.hyps])
  from first [of s] Some.prems have ge: "s0 \<le> s" by (cases "s < s0") auto
  consider "s = s0" | "s0 < s" "s < e0" | "e0 \<le> s" using ge by linarith
  then show ?case
  proof cases
    case 1
    with h Some.prems show ?thesis by (simp add: eq)
  next
    case 2
    then show ?thesis by (auto simp: eq)
  next
    case 3
    from Some.IH [OF Some.prems(1) 3] show ?thesis by (auto simp: eq)
  qed
qed

text \<open>
  C3: the matches of \<open>STMT_RE\<close> are statements: each starts at an occurrence of the
  keyword between word boundaries, in either case, and ends behind the first terminator
  after the keyword, across newlines. Every such statement is a match unless it starts
  inside an earlier match; the matches come from left to right and do not overlap, a
  statement that starts where a match ends being a match itself; and a keyword with no
  terminator behind it starts no match.
\<close>

theorem statement_extraction:
  "(\<forall>(s, e) \<in> set (finditer STMT_RE t). statement_at t s e)
   \<and> (\<forall>s e. statement_at t s e \<longrightarrow>
         (s, e) \<in> set (finditer STMT_RE t)
         \<or> (\<exists>(s', e') \<in> set (finditer STMT_RE t). s' < s \<and> s < e'))
   \<and> sorted_wrt (\<lambda>a b. snd a \<le> fst b) (finditer STMT_RE t)
   \<and> (\<forall>i. keyword_at ''SPLIT'' t i \<and> CHR ''.'' \<notin> set (drop (i + 5) t) \<longrightarrow>
         (\<forall>e. (i, e) \<notin> set (finditer STMT_RE t)))"
proof (intro conjI)
  show "\<forall>(s, e) \<in> set (finditer STMT_RE t). statement_at t s e"
    unfolding finditer_STMT using stmts_from_sound [of _ _ t 0] by (auto simp: stmt_end_iff)
  show "\<forall>s e. statement_at t s e \<longrightarrow>
         (s, e) \<in> set (finditer STMT_RE t)
         \<or> (\<exists>(s', e') \<in> set (finditer STMT_RE t). s' < s \<and> s < e')"
    unfolding finditer_STMT stmt_end_iff [symmetric]
    using stmts_from_complete [of t _ _ 0] by simp
  show "sorted_wrt (\<lambda>a b. snd a \<le> fst b) (finditer STMT_RE t)"
    unfolding finditer_STMT by (rule stmts_from_sorted)
  show "\<forall>i. keyword_at ''SPLIT'' t i \<and> CHR ''.'' \<notin> set (drop (i + 5) t) \<longrightarrow>
         (\<forall>e. (i, e) \<notin> set (finditer STMT_RE t))"
  proof (intro allI impI notI)
    fix i e assume a: "keyword_at ''SPLIT'' t i \<and> CHR ''.'' \<notin> set (drop (i + 5) t)"
      and "(i, e) \<in> set (finditer STMT_RE t)"
    then have "stmt_end t i = Some e" unfolding finditer_STMT using stmts_from_sound by blast
    note d = stmt_end_SomeD [OF this]
    have "drop (i + 5) t ! (e - 1 - (i + 5)) = t ! (e - 1)" using d(5,6) by simp
    moreover have "e - 1 - (i + 5) < length (drop (i + 5) t)" using d(5,6) by simp
    ultimately have "CHR ''.'' \<in> set (drop (i + 5) t)" using d(7) by (metis nth_mem)
    with a show False by simp
  qed
qed

theorem statement_extraction_witness:
  "finditer STMT_RE (''SPLIT a. split b'' @ [CHR 0x0A] @ ''SPLIT c. SPLIT d'') = [(0, 8), (9, 25)]
   \<and> statement_at (''SPLIT a. split b'' @ [CHR 0x0A] @ ''SPLIT c. SPLIT d'') 0 8
   \<and> statement_at (''SPLIT a. split b'' @ [CHR 0x0A] @ ''SPLIT c. SPLIT d'') 9 25
   \<and> statement_at (''SPLIT a. split b'' @ [CHR 0x0A] @ ''SPLIT c. SPLIT d'') 17 25
   \<and> keyword_at ''SPLIT'' (''SPLIT a. split b'' @ [CHR 0x0A] @ ''SPLIT c. SPLIT d'') 26
   \<and> CHR ''.'' \<notin> set (drop (26 + 5) (''SPLIT a. split b'' @ [CHR 0x0A] @ ''SPLIT c. SPLIT d''))
   \<and> (26, 32) \<notin> set (finditer STMT_RE (''SPLIT a. split b'' @ [CHR 0x0A] @ ''SPLIT c. SPLIT d''))"
proof -
  let ?t = "''SPLIT a. split b'' @ [CHR 0x0A] @ ''SPLIT c. SPLIT d''"
  have ev: "finditer STMT_RE ?t = [(0, 8), (9, 25)]" by code_simp
  have inner: "statement_at ?t 17 25" by code_simp
  have kw: "keyword_at ''SPLIT'' ?t 26" by code_simp
  have nd: "CHR ''.'' \<notin> set (drop (26 + 5) ?t)" by simp
  from statement_extraction [of ?t]
  have a: "\<forall>(s, e) \<in> set (finditer STMT_RE ?t). statement_at ?t s e"
    and b: "\<forall>i. keyword_at ''SPLIT'' ?t i \<and> CHR ''.'' \<notin> set (drop (i + 5) ?t) \<longrightarrow>
         (\<forall>e. (i, e) \<notin> set (finditer STMT_RE ?t))"
    by blast+
  from a have "statement_at ?t 0 8" "statement_at ?t 9 25" unfolding ev by simp_all
  moreover from b kw nd have "(26, 32) \<notin> set (finditer STMT_RE ?t)" by blast
  ultimately show ?thesis using ev inner kw nd by blast
qed

section \<open>The mode check\<close>

lemma run_end_step: "i < length t \<Longrightarrow> p (t ! i) \<Longrightarrow> run_end p t i = run_end p t (Suc i)"
  by (simp add: run_end_def Cons_nth_drop_Suc [symmetric])

lemma run_end_stuck: "\<not> (i < length t \<and> p (t ! i)) \<Longrightarrow> run_end p t i = i"
proof (cases "i < length t")
  case True
  assume "\<not> (i < length t \<and> p (t ! i))"
  with True have "\<not> p (t ! i)" by simp
  with True show ?thesis by (simp add: run_end_def Cons_nth_drop_Suc [symmetric])
qed (simp add: run_end_def)

lemma run_end_geI:
  assumes "a \<le> b" "\<And>k. a \<le> k \<Longrightarrow> k < b \<Longrightarrow> k < length t \<and> p (t ! k)"
  shows "b \<le> run_end p t a"
proof (rule ccontr)
  assume "\<not> b \<le> run_end p t a"
  then have lt: "run_end p t a < b" by simp
  with assms(2) [of "run_end p t a"] run_end_ge [of a p t]
  have "run_end p t a < length t" "p (t ! run_end p t a)" by simp_all
  with run_end_stop [of p t a] show False by simp
qed

lemma in_ends_Many: "e \<in> set (ends (Many p) t i) \<longleftrightarrow> i \<le> e \<and> e \<le> run_end p t i"
  by (auto simp: run_end_def)

lemma in_ends_Plus: "e \<in> set (ends (Plus p) t i) \<longleftrightarrow> i < e \<and> e \<le> run_end p t i"
proof (cases "i < length t \<and> p (t ! i)")
  case True
  then have "e \<in> set (ends (Plus p) t i) \<longleftrightarrow> e \<in> set (ends (Many p) t (Suc i))"
    by (simp add: Plus_def del: ends.simps(4))
  also have "\<dots> \<longleftrightarrow> Suc i \<le> e \<and> e \<le> run_end p t (Suc i)" by (rule in_ends_Many)
  also have "\<dots> \<longleftrightarrow> i < e \<and> e \<le> run_end p t i"
    using True by (simp add: run_end_step Suc_le_eq)
  finally show ?thesis .
next
  case False
  then have "ends (Plus p) t i = []" by (auto simp: Plus_def)
  with run_end_stuck [of i t p] False show ?thesis by simp
qed

lemma ex_ends_Seq:
  "(\<exists>e. e \<in> set (ends (Seq a b) t i)) \<longleftrightarrow> (\<exists>m. m \<in> set (ends a t i) \<and> (\<exists>e. e \<in> set (ends b t m)))"
  by auto

lemma ex_ends_WordB: "(\<exists>e. e \<in> set (ends WordB t i)) \<longleftrightarrow> word_boundary t i"
  by simp

lemma ex_Seq_WordB:
  "(\<exists>e. e \<in> set (ends (Seq WordB r) t i)) \<longleftrightarrow> word_boundary t i \<and> (\<exists>e. e \<in> set (ends r t i))"
  by simp

lemma ex_Seq_lits:
  "i \<le> length t \<Longrightarrow>
     (\<exists>e. e \<in> set (ends (Seq (lits kw) r) t i)) \<longleftrightarrow>
       keyword_at kw t i \<and> (\<exists>e. e \<in> set (ends r t (i + length kw)))"
  unfolding ends_Seq_lits by simp

lemma ex_Seq_Plus:
  "(\<exists>e. e \<in> set (ends (Seq (Plus p) r) t i)) \<longleftrightarrow>
     (\<exists>m. i < m \<and> m \<le> run_end p t i \<and> (\<exists>e. e \<in> set (ends r t m)))"
  unfolding ex_ends_Seq in_ends_Plus by blast

lemma ex_Seq_Alt:
  "(\<exists>e. e \<in> set (ends (Seq (Alt a b) r) t i)) \<longleftrightarrow>
     (\<exists>e. e \<in> set (ends (Seq a r) t i)) \<or> (\<exists>e. e \<in> set (ends (Seq b r) t i))"
  by auto

lemma keyword_at_le: "keyword_at kw t i \<Longrightarrow> i + length kw \<le> length t"
  by (simp add: keyword_at_def)

lemma ex_tail:
  assumes "j \<le> length t"
  shows "(\<exists>e. e \<in> set (ends (Seq (Plus is_space) (Seq (lits ''MODE'') WordB)) t j)) \<longleftrightarrow> mode_tail t j"
proof -
  have "(\<exists>e. e \<in> set (ends (Seq (lits ''MODE'') WordB) t n)) \<longleftrightarrow>
      keyword_at ''MODE'' t n \<and> word_boundary t (n + 4)" if "n \<le> run_end is_space t j" for n
  proof -
    from that run_end_le [OF assms, of is_space] have "n \<le> length t" by simp
    have "length ''MODE'' = 4" by simp
    then show ?thesis unfolding ex_Seq_lits [OF \<open>n \<le> length t\<close>] ex_ends_WordB by (simp only:)
  qed
  then show ?thesis unfolding ex_Seq_Plus mode_tail_def by blast
qed

lemma ex_alts:
  assumes "m \<le> length t"
  shows "(\<exists>e. e \<in> set (ends (Seq (Alt (lits ''CHARACTER'') (lits ''BYTE''))
            (Seq (Plus is_space) (Seq (lits ''MODE'') WordB))) t m)) \<longleftrightarrow>
         keyword_at ''CHARACTER'' t m \<and> mode_tail t (m + 9)
         \<or> keyword_at ''BYTE'' t m \<and> mode_tail t (m + 4)"
proof -
  have c: "keyword_at ''CHARACTER'' t m \<Longrightarrow> m + 9 \<le> length t"
    and b: "keyword_at ''BYTE'' t m \<Longrightarrow> m + 4 \<le> length t"
    using keyword_at_le [of _ t m] by fastforce+
  have "keyword_at ''CHARACTER'' t m \<and>
        (\<exists>e. e \<in> set (ends (Seq (Plus is_space) (Seq (lits ''MODE'') WordB)) t (m + 9)))
        \<longleftrightarrow> keyword_at ''CHARACTER'' t m \<and> mode_tail t (m + 9)"
    using c ex_tail by blast
  moreover have "keyword_at ''BYTE'' t m \<and>
        (\<exists>e. e \<in> set (ends (Seq (Plus is_space) (Seq (lits ''MODE'') WordB)) t (m + 4)))
        \<longleftrightarrow> keyword_at ''BYTE'' t m \<and> mode_tail t (m + 4)"
    using b ex_tail by blast
  moreover have "length ''CHARACTER'' = 9" "length ''BYTE'' = 4" by simp_all
  ultimately show ?thesis unfolding ex_Seq_Alt ex_Seq_lits [OF assms] by (simp only:)
qed

lemma ex_MODE_RE:
  assumes "i \<le> length t"
  shows "(\<exists>e. e \<in> set (ends MODE_RE t i)) \<longleftrightarrow> qualifier_at t i"
proof -
  let ?rest = "Seq (Alt (lits ''CHARACTER'') (lits ''BYTE''))
            (Seq (Plus is_space) (Seq (lits ''MODE'') WordB))"
  have len: "length ''IN'' = 2" by simp
  have "(\<exists>e. e \<in> set (ends ?rest t m)) \<longleftrightarrow>
      keyword_at ''CHARACTER'' t m \<and> mode_tail t (m + 9)
      \<or> keyword_at ''BYTE'' t m \<and> mode_tail t (m + 4)"
    if "keyword_at ''IN'' t i" "m \<le> run_end is_space t (i + 2)" for m
  proof -
    from keyword_at_le [OF that(1)] have "i + 2 \<le> length t" by simp
    from that(2) run_end_le [OF this, of is_space] have "m \<le> length t" by simp
    then show ?thesis by (rule ex_alts)
  qed
  then show ?thesis
    unfolding MODE_RE_def ex_Seq_WordB ex_Seq_lits [OF assms] len ex_Seq_Plus qualifier_at_def
    by blast
qed

lemma has_mode_iff: "has_mode t \<longleftrightarrow> (\<exists>i. qualifier_at t i)"
proof -
  have "has_mode t \<longleftrightarrow> (\<exists>i. i \<le> length t \<and> ends MODE_RE t i \<noteq> [])"
    unfolding has_mode_def search_False_None [of False MODE_RE t 0, simplified] by blast
  also have "\<dots> \<longleftrightarrow> (\<exists>i. i \<le> length t \<and> (\<exists>e. e \<in> set (ends MODE_RE t i)))"
    by (simp only: ex_in_conv set_empty)
  also have "\<dots> \<longleftrightarrow> (\<exists>i. i \<le> length t \<and> qualifier_at t i)"
    using ex_MODE_RE by blast
  also have "\<dots> \<longleftrightarrow> (\<exists>i. qualifier_at t i)"
  proof -
    have "i \<le> length t" if "qualifier_at t i" for i
      using that keyword_at_le [of "''IN''" t i] unfolding qualifier_at_def by simp
    then show ?thesis by blast
  qed
  finally show ?thesis .
qed

lemma ci_eq_length: "ci_eq a b \<Longrightarrow> length a = length b"
  unfolding ci_eq_def by (rule map_eq_imp_length_eq)

lemma keyword_at_append: "ci_eq k kw \<Longrightarrow> keyword_at kw (a @ k @ b) (length a)"
  using ci_eq_length [of k kw] by (simp add: keyword_at_def ci_eq_def)

lemma keyword_at_seg: "keyword_at kw t i \<Longrightarrow> ci_eq (take (length kw) (drop i t)) kw"
  by (simp add: keyword_at_def ci_eq_def)

lemma keyword_at_nth:
  assumes "keyword_at kw t i" "k < length kw"
  shows "lower (t ! (i + k)) = lower (kw ! k)"
proof -
  let ?seg = "take (length kw) (drop i t)"
  from assms have eq: "map lower ?seg = map lower kw" and len: "i + length kw \<le> length t"
    by (simp_all add: keyword_at_def)
  from len assms(2) have k: "k < length ?seg" by simp
  then have "?seg ! k = t ! (i + k)" using len by simp
  moreover from k have "map lower ?seg ! k = lower (?seg ! k)" by (rule nth_map)
  moreover from assms(2) have "map lower kw ! k = lower (kw ! k)" by (rule nth_map)
  ultimately show ?thesis using eq by simp
qed

lemma keyword_at_word:
  assumes "keyword_at kw t i" "k < length kw" "is_word (kw ! k)"
  shows "is_word (t ! (i + k))"
  using keyword_at_nth [OF assms(1,2)] assms(3) is_word_lower by metis

lemma keyword_at_not_space:
  assumes "keyword_at kw t i" "k < length kw" "\<not> is_space (kw ! k)"
  shows "\<not> is_space (t ! (i + k))"
  using keyword_at_nth [OF assms(1,2)] assms(3) is_space_lower by metis

lemma seg_append: "a \<le> b \<Longrightarrow> take (b - a) (drop a t) @ drop b t = drop a t"
proof -
  assume "a \<le> b"
  then have "drop b t = drop (b - a) (drop a t)" by simp
  then show ?thesis by (simp only: append_take_drop_id)
qed

lemma run_seg:
  assumes "m \<le> run_end p t j"
  shows "list_all p (take (m - j) (drop j t))"
proof -
  have "set (take (m - j) (drop j t)) \<subseteq> set (take (run_end p t j - j) (drop j t))"
    using assms by (intro set_take_subset_set_take) simp
  also have "\<dots> = set (takeWhile p (drop j t))" by (simp add: run_end_take)
  finally show ?thesis using set_takeWhileD [of _ p "drop j t"] by (auto simp: list_all_iff)
qed

lemma word_boundary_start:
  assumes "i < length t" "is_word (t ! i)"
  shows "word_boundary t i \<longleftrightarrow> (take i t = [] \<or> \<not> is_word (last (take i t)))"
proof (cases i)
  case 0
  with assms show ?thesis by (simp add: word_boundary_def)
next
  case (Suc k)
  with assms have "take i t = take k t @ [t ! k]" by (simp add: take_Suc_conv_app_nth)
  with Suc have "take i t \<noteq> []" "last (take i t) = t ! (i - 1)" by simp_all
  with assms Suc show ?thesis by (auto simp: word_boundary_def)
qed

lemma word_boundary_end:
  assumes "0 < j" "j \<le> length t" "is_word (t ! (j - 1))"
  shows "word_boundary t j \<longleftrightarrow> (drop j t = [] \<or> \<not> is_word (hd (drop j t)))"
proof (cases "j < length t")
  case True
  then have "drop j t \<noteq> []" "hd (drop j t) = t ! j" by (simp_all add: hd_drop_conv_nth)
  with assms True show ?thesis by (auto simp: word_boundary_def)
next
  case False
  with assms show ?thesis by (auto simp: word_boundary_def)
qed

lemma len_IN: "length ''IN'' = 2" and len_MODE: "length ''MODE'' = 4"
  and len_CHARACTER: "length ''CHARACTER'' = 9" and len_BYTE: "length ''BYTE'' = 4"
  by simp_all

lemma mode_qualifierI:
  "ci_eq kin ''IN'' \<Longrightarrow> ws1 \<noteq> [] \<Longrightarrow> list_all is_space ws1 \<Longrightarrow>
   ci_eq alt ''CHARACTER'' \<or> ci_eq alt ''BYTE'' \<Longrightarrow> ws2 \<noteq> [] \<Longrightarrow> list_all is_space ws2 \<Longrightarrow>
   ci_eq kmode ''MODE'' \<Longrightarrow> mode_qualifier (kin @ ws1 @ alt @ ws2 @ kmode)"
  unfolding mode_qualifier_def by blast

lemma has_qualifierI:
  "mode_qualifier q \<Longrightarrow> pre = [] \<or> \<not> is_word (last pre) \<Longrightarrow> post = [] \<or> \<not> is_word (hd post) \<Longrightarrow>
   has_qualifier (pre @ q @ post)"
  unfolding has_qualifier_def by blast

lemma has_qualifierE:
  assumes "has_qualifier t"
  obtains pre kin ws1 alt ws2 km post where
    "t = pre @ (kin @ ws1 @ alt @ ws2 @ km) @ post"
    "ci_eq kin ''IN''" "ws1 \<noteq> []" "list_all is_space ws1"
    "ci_eq alt ''CHARACTER'' \<or> ci_eq alt ''BYTE''"
    "ws2 \<noteq> []" "list_all is_space ws2" "ci_eq km ''MODE''"
    "pre = [] \<or> \<not> is_word (last pre)" "post = [] \<or> \<not> is_word (hd post)"
proof -
  from assms obtain pre q post where a: "t = pre @ q @ post" "mode_qualifier q"
    "pre = [] \<or> \<not> is_word (last pre)" "post = [] \<or> \<not> is_word (hd post)"
    unfolding has_qualifier_def by blast
  from a(2) obtain kin ws1 alt ws2 km where b: "q = kin @ ws1 @ alt @ ws2 @ km"
    "ci_eq kin ''IN''" "ws1 \<noteq> []" "list_all is_space ws1"
    "ci_eq alt ''CHARACTER'' \<or> ci_eq alt ''BYTE''"
    "ws2 \<noteq> []" "list_all is_space ws2" "ci_eq km ''MODE''"
    unfolding mode_qualifier_def by blast
  from a(1) b(1) have "t = pre @ (kin @ ws1 @ alt @ ws2 @ km) @ post" by (simp only:)
  then show ?thesis using b(2-) a(3,4) by (rule that)
qed

lemma is_word_I: "is_word CHR ''I''" and is_word_E: "is_word CHR ''E''"
  by (simp_all add: is_word_def)

lemma keyword_IN_word: "keyword_at ''IN'' t i \<Longrightarrow> is_word (t ! i)"
  using keyword_at_word [of "''IN''" t i 0] is_word_I by simp

lemma keyword_MODE_word: "keyword_at ''MODE'' t n \<Longrightarrow> is_word (t ! (n + 4 - 1))"
proof -
  assume "keyword_at ''MODE'' t n"
  then have "is_word (t ! (n + 3))" using keyword_at_word [of "''MODE''" t n 3] is_word_E by simp
  moreover have "n + 4 - 1 = n + 3" by simp
  ultimately show ?thesis by (simp only:)
qed

lemma run_append:
  assumes "list_all p w"
  shows "length a + length w \<le> run_end p (a @ w @ b) (length a)"
proof (rule run_end_geI)
  fix k assume k: "length a \<le> k" "k < length a + length w"
  then have kl: "k - length a < length w" by simp
  with k have "(a @ w @ b) ! k = w ! (k - length a)" by (simp add: nth_append)
  moreover from assms kl have "p (w ! (k - length a))" by (simp add: list_all_length)
  ultimately show "k < length (a @ w @ b) \<and> p ((a @ w @ b) ! k)" using k by simp
qed simp

lemma mode_tail_append:
  assumes "ws \<noteq> []" "list_all is_space ws" "ci_eq km ''MODE''" "post = [] \<or> \<not> is_word (hd post)"
  shows "mode_tail (a @ ws @ km @ post) (length a)"
proof -
  let ?t = "a @ ws @ km @ post"
  let ?n = "length a + length ws"
  have len: "length km = 4" using ci_eq_length [OF assms(3)] len_MODE by (simp only:)
  have "keyword_at ''MODE'' ((a @ ws) @ km @ post) (length (a @ ws))"
    using assms(3) by (rule keyword_at_append)
  then have kw: "keyword_at ''MODE'' ?t ?n" by simp
  have w: "is_word (?t ! (?n + 4 - 1))" using kw by (rule keyword_MODE_word)
  have "drop (?n + 4) ?t = post" using len by simp
  moreover have "0 < ?n + 4" "?n + 4 \<le> length ?t" using len by simp_all
  ultimately have wb: "word_boundary ?t (?n + 4)"
    using word_boundary_end [of "?n + 4" ?t] w assms(4) by (simp only:)
  have "length a < ?n" using assms(1) by simp
  moreover have "?n \<le> run_end is_space ?t (length a)" using assms(2) by (rule run_append)
  ultimately show ?thesis unfolding mode_tail_def using kw wb by blast
qed

lemma has_qualifier_at:
  assumes "has_qualifier t"
  shows "\<exists>i. qualifier_at t i"
proof -
  from assms obtain pre kin ws1 alt ws2 km post where
    t: "t = pre @ (kin @ ws1 @ alt @ ws2 @ km) @ post"
    and kin: "ci_eq kin ''IN''" and ws1: "ws1 \<noteq> []" "list_all is_space ws1"
    and alt: "ci_eq alt ''CHARACTER'' \<or> ci_eq alt ''BYTE''"
    and ws2: "ws2 \<noteq> []" "list_all is_space ws2" and km: "ci_eq km ''MODE''"
    and pre: "pre = [] \<or> \<not> is_word (last pre)" and post: "post = [] \<or> \<not> is_word (hd post)"
    by (rule has_qualifierE)
  let ?i = "length pre"
  let ?m = "length pre + 2 + length ws1"
  have lkin: "length kin = 2" using ci_eq_length [OF kin] len_IN by (simp only:)
  have t1: "t = pre @ kin @ (ws1 @ alt @ ws2 @ km @ post)" by (simp add: t)
  have t2: "t = (pre @ kin) @ ws1 @ (alt @ ws2 @ km @ post)" by (simp add: t)
  have t3: "t = (pre @ kin @ ws1) @ alt @ (ws2 @ km @ post)" by (simp add: t)
  have t4: "t = (pre @ kin @ ws1 @ alt) @ ws2 @ km @ post" by (simp add: t)
  have l2: "length (pre @ kin) = ?i + 2" using lkin by simp
  have l3: "length (pre @ kin @ ws1) = ?m" using lkin by simp
  have l4: "length (pre @ kin @ ws1 @ alt) = ?m + length alt" using lkin by simp
  have kw_in: "keyword_at ''IN'' t ?i" unfolding t1 using kin by (rule keyword_at_append)
  then have w: "is_word (t ! ?i)" by (rule keyword_IN_word)
  have "?i < length t" using lkin by (simp add: t)
  moreover have "take ?i t = pre" by (simp add: t)
  ultimately have wb: "word_boundary t ?i" using word_boundary_start [of ?i t] w pre by (simp only:)
  have "length (pre @ kin) + length ws1 \<le> run_end is_space ((pre @ kin) @ ws1 @ (alt @ ws2 @ km @ post)) (length (pre @ kin))"
    using ws1(2) by (rule run_append)
  then have run: "?m \<le> run_end is_space t (?i + 2)" unfolding t2 [symmetric] l2 by simp
  have lt: "?i + 2 < ?m" using ws1(1) by simp
  have "mode_tail ((pre @ kin @ ws1 @ alt) @ ws2 @ km @ post) (length (pre @ kin @ ws1 @ alt))"
    using ws2 km post by (rule mode_tail_append)
  then have tail: "mode_tail t (?m + length alt)" unfolding t4 [symmetric] l4 .
  have kw_alt: "keyword_at kw t ?m" if "ci_eq alt kw" for kw
  proof -
    have "keyword_at kw ((pre @ kin @ ws1) @ alt @ (ws2 @ km @ post)) (length (pre @ kin @ ws1))"
      using that by (rule keyword_at_append)
    then show ?thesis unfolding t3 [symmetric] l3 .
  qed
  from alt have "keyword_at ''CHARACTER'' t ?m \<and> mode_tail t (?m + 9)
      \<or> keyword_at ''BYTE'' t ?m \<and> mode_tail t (?m + 4)"
  proof
    assume a: "ci_eq alt ''CHARACTER''"
    have "length alt = 9" using ci_eq_length [OF a] len_CHARACTER by (simp only:)
    with tail kw_alt [OF a] show ?thesis by simp
  next
    assume a: "ci_eq alt ''BYTE''"
    have "length alt = 4" using ci_eq_length [OF a] len_BYTE by (simp only:)
    with tail kw_alt [OF a] show ?thesis by simp
  qed
  with wb kw_in lt run have "qualifier_at t ?i" unfolding qualifier_at_def by blast
  then show ?thesis ..
qed

lemma mode_tail_split:
  assumes "mode_tail t j" "j \<le> length t"
  obtains ws km where "drop j t = ws @ km @ drop (j + length ws + 4) t"
    "ws \<noteq> []" "list_all is_space ws" "ci_eq km ''MODE''"
    "drop (j + length ws + 4) t = [] \<or> \<not> is_word (hd (drop (j + length ws + 4) t))"
proof -
  from assms(1) obtain n where n: "j < n" "n \<le> run_end is_space t j"
    and kw: "keyword_at ''MODE'' t n" and wb: "word_boundary t (n + 4)"
    unfolding mode_tail_def by blast
  let ?ws = "take (n - j) (drop j t)"
  let ?km = "take 4 (drop n t)"
  from keyword_at_le [OF kw] have nl: "n + 4 \<le> length t" unfolding len_MODE .
  with n have len: "length ?ws = n - j" by simp
  with n(1) have pos: "j + length ?ws + 4 = n + 4" by simp
  have "take (n + 4 - n) (drop n t) @ drop (n + 4) t = drop n t" by (rule seg_append) simp
  then have a: "?km @ drop (n + 4) t = drop n t" by simp
  have b: "?ws @ drop n t = drop j t" using n(1) by (intro seg_append) simp
  have eq: "drop j t = ?ws @ ?km @ drop (j + length ?ws + 4) t"
    unfolding pos a b ..
  have ne: "?ws \<noteq> []" using n(1) nl by simp
  have sp: "list_all is_space ?ws" using n(2) by (rule run_seg)
  have ci: "ci_eq ?km ''MODE''" using keyword_at_seg [OF kw] unfolding len_MODE .
  have "is_word (t ! (n + 4 - 1))" using kw by (rule keyword_MODE_word)
  with word_boundary_end [of "n + 4" t] wb nl
  have "drop (n + 4) t = [] \<or> \<not> is_word (hd (drop (n + 4) t))" by simp
  then have bd: "drop (j + length ?ws + 4) t = [] \<or> \<not> is_word (hd (drop (j + length ?ws + 4) t))"
    unfolding pos .
  from eq ne sp ci bd show ?thesis by (rule that)
qed

lemma qualifier_at_has_alt:
  assumes wb: "word_boundary t i" and kw: "keyword_at ''IN'' t i"
    and m: "i + 2 < m" "m \<le> run_end is_space t (i + 2)"
    and A: "A = ''CHARACTER'' \<or> A = ''BYTE''"
    and kwA: "keyword_at A t m" and tail: "mode_tail t (m + length A)"
  shows "has_qualifier t"
proof -
  let ?kin = "take 2 (drop i t)"
  let ?ws1 = "take (m - (i + 2)) (drop (i + 2) t)"
  let ?alt = "take (length A) (drop m t)"
  from keyword_at_le [OF kwA] have mA: "m + length A \<le> length t" .
  from mode_tail_split [OF tail mA] obtain ws km where
    d4: "drop (m + length A) t = ws @ km @ drop (m + length A + length ws + 4) t"
    and ws: "ws \<noteq> []" "list_all is_space ws" and km: "ci_eq km ''MODE''"
    and bd: "drop (m + length A + length ws + 4) t = []
             \<or> \<not> is_word (hd (drop (m + length A + length ws + 4) t))"
    by blast
  let ?post = "drop (m + length A + length ws + 4) t"
  have "take (m + length A - m) (drop m t) @ drop (m + length A) t = drop m t"
    by (rule seg_append) simp
  then have d3: "drop m t = ?alt @ drop (m + length A) t" by simp
  have d2: "drop (i + 2) t = ?ws1 @ drop m t" using m(1) by (intro seg_append [symmetric]) simp
  have "take (i + 2 - i) (drop i t) @ drop (i + 2) t = drop i t" by (rule seg_append) simp
  then have d1: "drop i t = ?kin @ drop (i + 2) t" by simp
  have "drop i t = ?kin @ ?ws1 @ ?alt @ ws @ km @ ?post"
    using d1 d2 d3 d4 by (simp only:)
  then have "take i t @ drop i t = take i t @ (?kin @ ?ws1 @ ?alt @ ws @ km) @ ?post"
    by (simp only: append_assoc)
  then have t: "t = take i t @ (?kin @ ?ws1 @ ?alt @ ws @ km) @ ?post"
    by (simp only: append_take_drop_id)
  have ci_in: "ci_eq ?kin ''IN''" using keyword_at_seg [OF kw] unfolding len_IN .
  have "ci_eq ?alt A" using kwA by (rule keyword_at_seg)
  with A have ci_alt: "ci_eq ?alt ''CHARACTER'' \<or> ci_eq ?alt ''BYTE''" by blast
  have "m \<le> length t" using mA by simp
  then have ne1: "?ws1 \<noteq> []" using m(1) by simp
  have sp1: "list_all is_space ?ws1" using m(2) by (rule run_seg)
  have mq: "mode_qualifier (?kin @ ?ws1 @ ?alt @ ws @ km)"
    using ci_in ne1 sp1 ci_alt ws km by (rule mode_qualifierI)
  have il: "i < length t" using keyword_at_le [OF kw] by simp
  have "is_word (t ! i)" using kw by (rule keyword_IN_word)
  with word_boundary_start [OF il] wb
  have pre: "take i t = [] \<or> \<not> is_word (last (take i t))" by simp
  have "has_qualifier (take i t @ (?kin @ ?ws1 @ ?alt @ ws @ km) @ ?post)"
    using mq pre bd by (rule has_qualifierI)
  moreover have "has_qualifier t = has_qualifier (take i t @ (?kin @ ?ws1 @ ?alt @ ws @ km) @ ?post)"
    using t by (rule arg_cong)
  ultimately show ?thesis by (simp only:)
qed

lemma qualifier_at_has:
  assumes "qualifier_at t i"
  shows "has_qualifier t"
proof -
  from assms obtain m where wb: "word_boundary t i" and kw: "keyword_at ''IN'' t i"
    and m: "i + 2 < m" "m \<le> run_end is_space t (i + 2)"
    and alts: "keyword_at ''CHARACTER'' t m \<and> mode_tail t (m + 9)
               \<or> keyword_at ''BYTE'' t m \<and> mode_tail t (m + 4)"
    unfolding qualifier_at_def by blast
  from alts show ?thesis
  proof
    assume "keyword_at ''CHARACTER'' t m \<and> mode_tail t (m + 9)"
    then have "keyword_at ''CHARACTER'' t m" "mode_tail t (m + length ''CHARACTER'')"
      unfolding len_CHARACTER by blast+
    with wb kw m show ?thesis by (intro qualifier_at_has_alt [of t i m "''CHARACTER''"]) blast+
  next
    assume "keyword_at ''BYTE'' t m \<and> mode_tail t (m + 4)"
    then have "keyword_at ''BYTE'' t m" "mode_tail t (m + length ''BYTE'')"
      unfolding len_BYTE by blast+
    with wb kw m show ?thesis by (intro qualifier_at_has_alt [of t i m "''BYTE''"]) blast+
  qed
qed

lemma has_mode_qualifier: "has_mode stmt \<longleftrightarrow> has_qualifier stmt"
  unfolding has_mode_iff using has_qualifier_at qualifier_at_has by blast

text \<open>
  C2: \<open>MODE_RE\<close> is found in a statement exactly when the qualifier occurs in it as a
  whole word, in either case: \<^verbatim>\<open>IN\<close>, white space, \<^verbatim>\<open>CHARACTER\<close> or \<^verbatim>\<open>BYTE\<close>, white
  space, \<^verbatim>\<open>MODE\<close>. The findings of a unit are those of its statements in which the
  qualifier does not occur, so a statement with the qualifier has no finding, and a text
  whose statements all carry the qualifier has none at all.
\<close>

theorem qualifier_no_finding:
  "(has_mode stmt \<longleftrightarrow> has_qualifier stmt)
   \<and> (code u = Some src \<longrightarrow>
        rule116_findings (scan_unit u) =
          map (make_finding u src)
            (filter (\<lambda>(s, e). \<not> has_qualifier (slice src (int s) (int e))) (finditer STMT_RE src)))
   \<and> (code u = Some src
        \<and> (\<forall>(s, e) \<in> set (finditer STMT_RE src). has_qualifier (slice src (int s) (int e)))
        \<longrightarrow> rule116_findings (scan_unit u) = [])"
proof -
  have a: "has_mode stmt \<longleftrightarrow> has_qualifier stmt" by (rule has_mode_qualifier)
  have l: "lacks_mode src = (\<lambda>(s, e). \<not> has_qualifier (slice src (int s) (int e)))"
    by (auto simp: lacks_mode_def has_mode_qualifier fun_eq_iff)
  have b: "rule116_findings (scan_unit u) =
          map (make_finding u src)
            (filter (\<lambda>(s, e). \<not> has_qualifier (slice src (int s) (int e))) (finditer STMT_RE src))"
    if "code u = Some src"
    unfolding findings_scan_unit scan_findings_eq source_Some [OF that] l ..
  have c: "rule116_findings (scan_unit u) = []"
    if "code u = Some src"
      "\<forall>(s, e) \<in> set (finditer STMT_RE src). has_qualifier (slice src (int s) (int e))"
  proof -
    from that(2)
    have "filter (\<lambda>(s, e). \<not> has_qualifier (slice src (int s) (int e))) (finditer STMT_RE src) = []"
      by (auto simp: filter_empty_conv)
    then show ?thesis unfolding b [OF that(1)] by simp
  qed
  from a b c show ?thesis by blast
qed

text \<open>The compliant example of the specification: no finding.\<close>

theorem qualifier_no_finding_witness:
  "code (demo_unit ''SPLIT lv_text AT x INTO lv1 lv2 IN CHARACTER MODE.'')
     = Some ''SPLIT lv_text AT x INTO lv1 lv2 IN CHARACTER MODE.''
   \<and> finditer STMT_RE ''SPLIT lv_text AT x INTO lv1 lv2 IN CHARACTER MODE.'' = [(0, 50)]
   \<and> has_qualifier (slice ''SPLIT lv_text AT x INTO lv1 lv2 IN CHARACTER MODE.'' 0 50)
   \<and> has_mode ''SPLIT lv_text AT x INTO lv1 lv2 IN CHARACTER MODE.''
   \<and> rule116_findings (scan_unit (demo_unit ''SPLIT lv_text AT x INTO lv1 lv2 IN CHARACTER MODE.'')) = []"
proof -
  let ?src = "''SPLIT lv_text AT x INTO lv1 lv2 IN CHARACTER MODE.''"
  have h: "code (demo_unit ?src) = Some ?src" by (simp add: demo_unit_def)
  have ev: "finditer STMT_RE ?src = [(0, 50)]" by code_simp
  have sl: "slice ?src 0 50 = ?src" by code_simp
  have "mode_qualifier (''IN'' @ '' '' @ ''CHARACTER'' @ '' '' @ ''MODE'')"
    by (rule mode_qualifierI) (simp_all add: ci_eq_def is_space_def)
  then have "has_qualifier (''SPLIT lv_text AT x INTO lv1 lv2 '' @ (''IN'' @ '' '' @ ''CHARACTER'' @ '' '' @ ''MODE'') @ ''.'')"
    by (rule has_qualifierI) (simp_all add: is_word_def)
  then have q: "has_qualifier ?src" by simp
  then have all: "\<forall>(s, e) \<in> set (finditer STMT_RE ?src). has_qualifier (slice ?src (int s) (int e))"
    unfolding ev using sl by simp
  from qualifier_no_finding [of ?src "demo_unit ?src" ?src] h all q
  have "has_mode ?src" "rule116_findings (scan_unit (demo_unit ?src)) = []" by blast+
  with h ev q sl show ?thesis by (simp only: simp_thms)
qed

section \<open>Statements in a segmented text\<close>












lemma closed_text_Nil: "closed_text []"
  by (simp add: closed_text_def keyword_at_def)














lemma lines_scan_findings: "map line (scan_findings u) = finding_lines (source u)"
  unfolding scan_findings_eq finding_lines_def violations_def
  by (simp add: make_finding_def comp_def split_def)

















lemma lines_scan_findings_text:
  "map line (scan_findings (u\<lparr>code := Some t\<rparr>)) = finding_lines t"
  by (simp add: lines_scan_findings source_def)




section \<open>One finding for every statement without the qualifier\<close>




section \<open>The snippet\<close>

text \<open>
  C4: every finding is made for its own statement, a match of \<open>STMT_RE\<close> from \<open>s\<close> to \<open>e\<close>
  in which the qualifier does not occur, and the snippet of the finding made for that
  statement is the excerpt of the source text from 60 characters before \<open>s\<close>, or from the
  start of the text, to 60 characters behind \<open>e\<close>, or to the end of the text, in which
  every newline character is replaced by a backslash and the letter n. The snippets of
  the findings are these excerpts, in the order of the findings, and no snippet contains
  a newline character.
\<close>

theorem snippet_excerpt:
  "code u = Some src \<Longrightarrow>
     rule116_findings (scan_unit u) =
       map (make_finding u src)
         (filter (\<lambda>(s, e). \<not> has_qualifier (slice src (int s) (int e))) (finditer STMT_RE src))
     \<and> map snippet (rule116_findings (scan_unit u)) =
         map (\<lambda>(s, e). concat (map (\<lambda>c. if c = CHR 0x0A then [CHR 0x5C, CHR ''n''] else [c])
                (take (min (length src) (e + 60) - (s - 60)) (drop (s - 60) src))))
           (filter (\<lambda>(s, e). \<not> has_qualifier (slice src (int s) (int e))) (finditer STMT_RE src))
     \<and> (\<forall>(s, e) \<in> set (finditer STMT_RE src).
           statement_at src s e
           \<and> snippet (make_finding u src (s, e)) =
               concat (map (\<lambda>c. if c = CHR 0x0A then [CHR 0x5C, CHR ''n''] else [c])
                 (take (min (length src) (e + 60) - (s - 60)) (drop (s - 60) src))))
     \<and> (\<forall>f \<in> set (rule116_findings (scan_unit u)). CHR 0x0A \<notin> set (snippet f))"
proof (intro conjI)
  assume c: "code u = Some src"
  let ?ms = "filter (\<lambda>(s, e). \<not> has_qualifier (slice src (int s) (int e))) (finditer STMT_RE src)"
  have l: "lacks_mode src = (\<lambda>(s, e). \<not> has_qualifier (slice src (int s) (int e)))"
    by (auto simp: lacks_mode_def has_mode_qualifier fun_eq_iff)
  show fs: "rule116_findings (scan_unit u) = map (make_finding u src) ?ms"
    unfolding findings_scan_unit scan_findings_eq source_Some [OF c] l ..
  have sn: "snippet (make_finding u src (s, e)) =
      concat (map (\<lambda>c. if c = CHR 0x0A then [CHR 0x5C, CHR ''n''] else [c])
        (take (min (length src) (e + 60) - (s - 60)) (drop (s - 60) src)))" for s e
    by (simp add: make_finding_def snippet_at_nat)
  show "map snippet (rule116_findings (scan_unit u)) =
         map (\<lambda>(s, e). concat (map (\<lambda>c. if c = CHR 0x0A then [CHR 0x5C, CHR ''n''] else [c])
                (take (min (length src) (e + 60) - (s - 60)) (drop (s - 60) src)))) ?ms"
    unfolding fs by (simp add: comp_def split_def sn [symmetric])
  show "\<forall>(s, e) \<in> set (finditer STMT_RE src).
           statement_at src s e
           \<and> snippet (make_finding u src (s, e)) =
               concat (map (\<lambda>c. if c = CHR 0x0A then [CHR 0x5C, CHR ''n''] else [c])
                 (take (min (length src) (e + 60) - (s - 60)) (drop (s - 60) src)))"
  proof (intro ballI, clarify, intro conjI)
    fix s e assume "(s, e) \<in> set (finditer STMT_RE src)"
    then have "stmt_end src s = Some e" unfolding finditer_STMT using stmts_from_sound by blast
    then show "statement_at src s e" by (simp only: stmt_end_iff)
    show "snippet (make_finding u src (s, e)) =
               concat (map (\<lambda>c. if c = CHR 0x0A then [CHR 0x5C, CHR ''n''] else [c])
                 (take (min (length src) (e + 60) - (s - 60)) (drop (s - 60) src)))"
      by (rule sn)
  qed
  show "\<forall>f \<in> set (rule116_findings (scan_unit u)). CHR 0x0A \<notin> set (snippet f)"
  proof
    fix f assume "f \<in> set (rule116_findings (scan_unit u))"
    then obtain m where "f = make_finding u src m" unfolding fs by auto
    then show "CHR 0x0A \<notin> set (snippet f)"
      by (cases m) (simp add: make_finding_def snippet_no_newline)
  qed
qed

text \<open>
  A statement on the second line, with 71 characters before it and 70 behind it: the
  snippet starts 60 characters before the keyword and ends 60 characters behind the
  terminator.
\<close>

theorem snippet_excerpt_witness:
  "code (demo_unit (replicate 70 CHR ''x'' @ ''.'' @ [CHR 0x0A] @ ''SPLIT a.'' @ replicate 70 CHR ''y''))
     = Some (replicate 70 CHR ''x'' @ ''.'' @ [CHR 0x0A] @ ''SPLIT a.'' @ replicate 70 CHR ''y'')
   \<and> finditer STMT_RE (replicate 70 CHR ''x'' @ ''.'' @ [CHR 0x0A] @ ''SPLIT a.'' @ replicate 70 CHR ''y'')
     = [(72, 80)]
   \<and> statement_at (replicate 70 CHR ''x'' @ ''.'' @ [CHR 0x0A] @ ''SPLIT a.'' @ replicate 70 CHR ''y'') 72 80
   \<and> length (rule116_findings (scan_unit
        (demo_unit (replicate 70 CHR ''x'' @ ''.'' @ [CHR 0x0A] @ ''SPLIT a.'' @ replicate 70 CHR ''y'')))) = 1
   \<and> snippet (make_finding
        (demo_unit (replicate 70 CHR ''x'' @ ''.'' @ [CHR 0x0A] @ ''SPLIT a.'' @ replicate 70 CHR ''y''))
        (replicate 70 CHR ''x'' @ ''.'' @ [CHR 0x0A] @ ''SPLIT a.'' @ replicate 70 CHR ''y'') (72, 80))
     = replicate 58 CHR ''x'' @ ''.'' @ [CHR 0x5C, CHR ''n''] @ ''SPLIT a.'' @ replicate 60 CHR ''y''
   \<and> map snippet (rule116_findings (scan_unit
        (demo_unit (replicate 70 CHR ''x'' @ ''.'' @ [CHR 0x0A] @ ''SPLIT a.'' @ replicate 70 CHR ''y''))))
     = [replicate 58 CHR ''x'' @ ''.'' @ [CHR 0x5C, CHR ''n''] @ ''SPLIT a.'' @ replicate 60 CHR ''y'']
   \<and> CHR 0x0A \<notin> set (snippet (hd (rule116_findings (scan_unit
        (demo_unit (replicate 70 CHR ''x'' @ ''.'' @ [CHR 0x0A] @ ''SPLIT a.'' @ replicate 70 CHR ''y''))))))"
proof -
  let ?src = "replicate 70 CHR ''x'' @ ''.'' @ [CHR 0x0A] @ ''SPLIT a.'' @ replicate 70 CHR ''y''"
  let ?u = "demo_unit ?src"
  let ?fs = "rule116_findings (scan_unit ?u)"
  let ?esc = "\<lambda>c. if c = CHR 0x0A then [CHR 0x5C, CHR ''n''] else [c]"
  have h: "code ?u = Some ?src" by (simp add: demo_unit_def)
  have ms: "finditer STMT_RE ?src = [(72, 80)]" by code_simp
  have ex: "concat (map ?esc (take (min (length ?src) (80 + 60) - (72 - 60)) (drop (72 - 60) ?src)))
      = replicate 58 CHR ''x'' @ ''.'' @ [CHR 0x5C, CHR ''n''] @ ''SPLIT a.'' @ replicate 60 CHR ''y''"
    by code_simp
  have ev: "map snippet ?fs
      = [replicate 58 CHR ''x'' @ ''.'' @ [CHR 0x5C, CHR ''n''] @ ''SPLIT a.'' @ replicate 60 CHR ''y'']"
    by code_simp
  then have len: "length ?fs = 1" by (metis length_map length_Cons list.size(3) One_nat_def)
  then have "hd ?fs \<in> set ?fs" by (cases ?fs) simp_all
  moreover from snippet_excerpt [OF h]
  have a: "\<forall>(s, e) \<in> set (finditer STMT_RE ?src).
           statement_at ?src s e
           \<and> snippet (make_finding ?u ?src (s, e)) =
               concat (map ?esc (take (min (length ?src) (e + 60) - (s - 60)) (drop (s - 60) ?src)))"
    and b: "\<forall>f \<in> set ?fs. CHR 0x0A \<notin> set (snippet f)"
    by blast+
  ultimately have nl: "CHR 0x0A \<notin> set (snippet (hd ?fs))" by blast
  from a have "statement_at ?src 72 80
      \<and> snippet (make_finding ?u ?src (72, 80)) =
          concat (map ?esc (take (min (length ?src) (80 + 60) - (72 - 60)) (drop (72 - 60) ?src)))"
    unfolding ms by simp
  then have st: "statement_at ?src 72 80"
    and sn: "snippet (make_finding ?u ?src (72, 80))
      = replicate 58 CHR ''x'' @ ''.'' @ [CHR 0x5C, CHR ''n''] @ ''SPLIT a.'' @ replicate 60 CHR ''y''"
    unfolding ex by blast+
  from h ms st len sn ev nl show ?thesis by (simp only: simp_thms)
qed

lemma scan_unit_st_Model:
  assumes "objects h r = Some (Model u)"
  shows "scan_unit_st r h =
     Some (next_ref h,
       h\<lparr> objects := (objects h)(next_ref h \<mapsto> Dict u (Some (scan_findings u))),
          next_ref := Suc (next_ref h) \<rparr>)"
  using assms by (simp add: scan_unit_st_def model_dump_def set_findings_def Let_def)

section \<open>The scan reads the unit and writes only its result\<close>

text \<open>
  C8: scanning a unit allocates the result and changes no object that existed before,
  the unit included; scanning the same unit again, in the store the first scan left,
  yields the same findings list, which is the one of \<open>scan_unit\<close>, and leaves the first
  result as it was.
\<close>

theorem scan_pure:
  assumes "objects h r = Some (Model u)" and "r < next_ref h"
  shows "\<exists>d1 h1 d2 h2.
      scan_unit_st r h = Some (d1, h1) \<and> scan_unit_st r h1 = Some (d2, h2)
      \<and> objects h1 d1 = Some (Dict u (Some (rule116_findings (scan_unit u))))
      \<and> objects h2 d2 = Some (Dict u (Some (rule116_findings (scan_unit u))))
      \<and> objects h2 d1 = objects h1 d1
      \<and> (\<forall>x. x < next_ref h \<longrightarrow> objects h1 x = objects h x \<and> objects h2 x = objects h x)"
proof -
  let ?fs = "scan_findings u"
  let ?d1 = "next_ref h"
  let ?h1 = "h\<lparr> objects := (objects h)(?d1 \<mapsto> Dict u (Some ?fs)), next_ref := Suc ?d1 \<rparr>"
  let ?d2 = "Suc ?d1"
  let ?h2 = "?h1\<lparr> objects := (objects ?h1)(?d2 \<mapsto> Dict u (Some ?fs)), next_ref := Suc ?d2 \<rparr>"
  have s1: "scan_unit_st r h = Some (?d1, ?h1)" using assms(1) by (rule scan_unit_st_Model)
  have "objects ?h1 r = Some (Model u)" using assms by simp
  then have "scan_unit_st r ?h1 = Some (next_ref ?h1,
       ?h1\<lparr> objects := (objects ?h1)(next_ref ?h1 \<mapsto> Dict u (Some ?fs)),
          next_ref := Suc (next_ref ?h1) \<rparr>)"
    by (rule scan_unit_st_Model)
  then have s2: "scan_unit_st r ?h1 = Some (?d2, ?h2)" by simp
  have a: "objects ?h1 ?d1 = Some (Dict u (Some (rule116_findings (scan_unit u))))"
    by (simp add: findings_scan_unit)
  have b: "objects ?h2 ?d2 = Some (Dict u (Some (rule116_findings (scan_unit u))))"
    by (simp add: findings_scan_unit)
  have c: "objects ?h2 ?d1 = objects ?h1 ?d1" by simp
  have d: "\<forall>x. x < next_ref h \<longrightarrow> objects ?h1 x = objects h x \<and> objects ?h2 x = objects h x"
    by simp
  from s1 s2 a b c d show ?thesis by blast
qed

theorem scan_pure_witness:
  "objects demo_heap 0 = Some (Model (demo_unit ''SPLIT a.'')) \<and> 0 < next_ref demo_heap
   \<and> map_option fst (scan_unit_st 0 demo_heap) = Some 1
   \<and> map_option fst (scan_unit_st 0 (snd (the (scan_unit_st 0 demo_heap)))) = Some 2
   \<and> objects (snd (the (scan_unit_st 0 demo_heap))) 0 = Some (Model (demo_unit ''SPLIT a.''))
   \<and> (\<exists>d1 h1 d2 h2.
      scan_unit_st 0 demo_heap = Some (d1, h1) \<and> scan_unit_st 0 h1 = Some (d2, h2)
      \<and> objects h1 d1 = Some (Dict (demo_unit ''SPLIT a.'')
            (Some (rule116_findings (scan_unit (demo_unit ''SPLIT a.'')))))
      \<and> objects h2 d2 = Some (Dict (demo_unit ''SPLIT a.'')
            (Some (rule116_findings (scan_unit (demo_unit ''SPLIT a.'')))))
      \<and> objects h2 d1 = objects h1 d1
      \<and> objects h1 0 = objects demo_heap 0 \<and> objects h2 0 = objects demo_heap 0)"
proof -
  have h1: "objects demo_heap 0 = Some (Model (demo_unit ''SPLIT a.''))"
    by (simp add: demo_heap_def)
  have h2: "0 < next_ref demo_heap" by (simp add: demo_heap_def)
  have e1: "map_option fst (scan_unit_st 0 demo_heap) = Some 1"
    by (simp add: scan_unit_st_Model [OF h1]) (simp add: demo_heap_def)
  have e0: "scan_unit_st 0 demo_heap = Some (next_ref demo_heap,
       demo_heap\<lparr> objects := (objects demo_heap)(next_ref demo_heap \<mapsto>
            Dict (demo_unit ''SPLIT a.'') (Some (scan_findings (demo_unit ''SPLIT a.'')))),
          next_ref := Suc (next_ref demo_heap) \<rparr>)"
    using h1 by (rule scan_unit_st_Model)
  have e3: "objects (snd (the (scan_unit_st 0 demo_heap))) 0 = Some (Model (demo_unit ''SPLIT a.''))"
    unfolding e0 by (simp add: demo_heap_def)
  have nr: "next_ref (snd (the (scan_unit_st 0 demo_heap))) = 2"
    unfolding e0 by (simp add: demo_heap_def)
  have e2: "map_option fst (scan_unit_st 0 (snd (the (scan_unit_st 0 demo_heap)))) = Some 2"
    by (simp add: scan_unit_st_Model [OF e3] nr)
  from scan_pure [OF h1 h2] h2 have "\<exists>d1 h1 d2 h2.
      scan_unit_st 0 demo_heap = Some (d1, h1) \<and> scan_unit_st 0 h1 = Some (d2, h2)
      \<and> objects h1 d1 = Some (Dict (demo_unit ''SPLIT a.'')
            (Some (rule116_findings (scan_unit (demo_unit ''SPLIT a.'')))))
      \<and> objects h2 d2 = Some (Dict (demo_unit ''SPLIT a.'')
            (Some (rule116_findings (scan_unit (demo_unit ''SPLIT a.'')))))
      \<and> objects h2 d1 = objects h1 d1
      \<and> objects h1 0 = objects demo_heap 0 \<and> objects h2 0 = objects demo_heap 0"
    by blast
  with h1 h2 e1 e2 e3 show ?thesis by (simp only: simp_thms)
qed

end
